theory Spec2Isabelle
  imports Main "HOL-Library.Word"
begin

unbundle bit_operations_syntax

section \<open>Bytes, errors and the two streams\<close>

text \<open>
  A shallow embedding of \<^verbatim>\<open>caf.go\<close>. The input stream of \<^verbatim>\<open>File.Decode\<close> is the list of
  the bytes not yet read: the \<^verbatim>\<open>bufio.Reader\<close> wraps an in-memory reader that hands out
  every byte and then reports \<^verbatim>\<open>io.EOF\<close>. A decoder takes the stream and returns either an
  error or its value together with the stream that is left. An encoder returns the bytes it
  appends to the writer; the writer itself never fails (a \<^verbatim>\<open>bytes.Buffer\<close>). Where a call
  fails, only the failure is kept: the bytes an encoder had written before, and the fields a
  decoder had set in its receiver before, are not part of the result.
  Go's \<^verbatim>\<open>int\<close> is taken to be 64 bits wide.
\<close>

type_synonym byte = "8 word"

type_synonym reader = "byte list"

text \<open>\<^verbatim>\<open>type FourByteString [4]byte\<close>: a fixed array of four bytes.\<close>

type_synonym FourByteString = "byte \<times> byte \<times> byte \<times> byte"

text \<open>
  The error values that reach a caller, and the three run-time panics the code can raise:
  \<^verbatim>\<open>make\<close> with a length that is negative or too large, an index out of range,
  and a failed type assertion. A panic is not an error value: it unwinds through every
  caller, which is what \<open>Inl\<close> of a panic does in the model, since no caller tests for it.
\<close>

datatype error =
    EOF
  | ErrUnexpectedEOF
  | ErrInvalidCaffHeader
  | PanicMakeslice
  | PanicIndexOutOfRange
  | PanicTypeAssertion

definition is_panic :: "error \<Rightarrow> bool" where
  "is_panic e = (e = PanicMakeslice \<or> e = PanicIndexOutOfRange \<or> e = PanicTypeAssertion)"

text \<open>
  \<^verbatim>\<open>stringToChunkType\<close> copies the bytes of the string into a zeroed array. It is only ever
  applied to four-letter ASCII literals (a longer string would index past the array).
\<close>

definition stringToChunkType :: "string \<Rightarrow> FourByteString" where
  "stringToChunkType str =
     (let bs = map of_char str @ replicate 4 (0 :: byte)
      in (bs ! 0, bs ! 1, bs ! 2, bs ! 3))"

definition ChunkTypeAudioDescription :: FourByteString where
  "ChunkTypeAudioDescription = stringToChunkType ''desc''"

definition ChunkTypeChannelLayout :: FourByteString where
  "ChunkTypeChannelLayout = stringToChunkType ''chan''"

definition ChunkTypeInformation :: FourByteString where
  "ChunkTypeInformation = stringToChunkType ''info''"

definition ChunkTypeAudioData :: FourByteString where
  "ChunkTypeAudioData = stringToChunkType ''data''"

definition ChunkTypePacketTable :: FourByteString where
  "ChunkTypePacketTable = stringToChunkType ''pakt''"

definition ChunkTypeMidi :: FourByteString where
  "ChunkTypeMidi = stringToChunkType ''midi''"

text \<open>The tags the default branch of the framer is left with.\<close>

definition unknown_tag :: "FourByteString \<Rightarrow> bool" where
  "unknown_tag t =
     (t \<noteq> ChunkTypeAudioDescription \<and> t \<noteq> ChunkTypeChannelLayout \<and> t \<noteq> ChunkTypeInformation
      \<and> t \<noteq> ChunkTypeAudioData \<and> t \<noteq> ChunkTypePacketTable \<and> t \<noteq> ChunkTypeMidi)"

section \<open>The data model\<close>

text \<open>
  Integer fields are words of their width; a signed field is read with \<open>sint\<close> where its
  sign matters. The float fields (\<^verbatim>\<open>SampleRate\<close>, \<^verbatim>\<open>Coordinates\<close>) are kept as their IEEE bit
  patterns: the code computes nothing with them, it only moves them between the stream and
  the struct (what that move does to a \<^verbatim>\<open>float32\<close> is part of the field layout below).
  A Go \<^verbatim>\<open>string\<close> is its sequence of bytes.
\<close>

record FileHeader =
  FileType :: FourByteString
  FileVersion :: "16 word"
  FileFlags :: "16 word"

record ChunkHeader =
  ChunkType :: FourByteString
  ChunkSize :: "64 word"

record Data =
  EditCount :: "32 word"
  Data :: "byte list"

record AudioFormat =
  SampleRate :: "64 word"
  FormatID :: FourByteString
  FormatFlags :: "32 word"
  BytesPerPacket :: "32 word"
  FramesPerPacket :: "32 word"
  ChannelsPerPacket :: "32 word"
  BitsPerChannel :: "32 word"

record PacketTableHeader =
  NumberPackets :: "64 word"
  NumberValidFrames :: "64 word"
  PrimingFramess :: "32 word"
  RemainderFrames :: "32 word"

record PacketTable =
  Header :: PacketTableHeader
  Entry :: "64 word list"

record ChannelDescription =
  ChannelLabel :: "32 word"
  ChannelFlags :: "32 word"
  Coordinates :: "32 word \<times> 32 word \<times> 32 word"

record ChannelLayout =
  ChannelLayoutTag :: "32 word"
  ChannelBitmap :: "32 word"
  NumberChannelDescriptions :: "32 word"
  Channels :: "ChannelDescription list"

record Information =
  Key :: "byte list"
  Value :: "byte list"

record CAFStringsChunk =
  NumEntries :: "32 word"
  Strings :: "Information list"

text \<open>
  \<^verbatim>\<open>Contents interface{}\<close>: the dynamic types the decoder stores, and the nil interface of
  a chunk that was never filled.
\<close>

datatype Contents =
    NilContents
  | PAudioFormat AudioFormat
  | PChannelLayout ChannelLayout
  | PCAFStringsChunk CAFStringsChunk
  | PData Data
  | PPacketTable PacketTable
  | VMidi "byte list"
  | PUnknownContents "byte list"

record Chunk =
  Header :: ChunkHeader
  Contents :: Contents

record File =
  FileHeader :: FileHeader
  Chunks :: "Chunk list"

section \<open>Reading from the stream\<close>

text \<open>
  \<^verbatim>\<open>io.ReadFull\<close> into a buffer of \<open>n\<close> bytes: nothing is read for an empty buffer; at the
  end of the stream the error is \<^verbatim>\<open>io.EOF\<close> when no byte was read and
  \<^verbatim>\<open>io.ErrUnexpectedEOF\<close> when some but not all were.
\<close>

definition ReadFull :: "nat \<Rightarrow> reader \<Rightarrow> error + (byte list \<times> reader)" where
  "ReadFull n r =
     (if n = 0 then Inr ([], r)
      else if r = [] then Inl EOF
      else if length r < n then Inl ErrUnexpectedEOF
      else Inr (take n r, drop n r))"

text \<open>\<^verbatim>\<open>ioutil.ReadAll\<close> never reports the end of the stream as an error.\<close>

definition ReadAll :: "reader \<Rightarrow> byte list \<times> reader" where
  "ReadAll r = (r, [])"

text \<open>
  \<^verbatim>\<open>ioutil.ReadAll(io.LimitReader(r, n))\<close>: at most \<open>n\<close> bytes, none when \<open>n \<le> 0\<close>, and
  fewer than \<open>n\<close> without an error when the stream ends first.
\<close>

definition ReadAll_LimitReader :: "int \<Rightarrow> reader \<Rightarrow> byte list \<times> reader" where
  "ReadAll_LimitReader n r = (take (nat n) r, drop (nat n) r)"

text \<open>
  \<^verbatim>\<open>make([]byte, n)\<close> panics when \<open>n\<close> is negative or beyond what the run time can
  allocate; \<open>lim\<close> is that largest length, a parameter of the model.
\<close>

definition make_bytes :: "int \<Rightarrow> int \<Rightarrow> error + nat" where
  "make_bytes lim n = (if n < 0 \<or> lim < n then Inl PanicMakeslice else Inr (nat n))"

subsection \<open>Big-endian fields\<close>

definition be_nat :: "byte list \<Rightarrow> nat" where
  "be_nat bs = foldl (\<lambda>acc b. acc * 256 + unat b) 0 bs"

definition be_word :: "byte list \<Rightarrow> 'a::len word" where
  "be_word bs = of_nat (be_nat bs)"

fun be_bytes :: "nat \<Rightarrow> nat \<Rightarrow> byte list" where
  "be_bytes 0 v = []"
| "be_bytes (Suc n) v = be_bytes n (v div 256) @ [of_nat (v mod 256)]"

definition word_be :: "nat \<Rightarrow> 'a::len word \<Rightarrow> byte list" where
  "word_be n w = be_bytes n (unat w)"

definition seg :: "nat \<Rightarrow> nat \<Rightarrow> byte list \<Rightarrow> byte list" where
  "seg off n bs = take n (drop off bs)"

definition get_FourByteString :: "byte list \<Rightarrow> FourByteString" where
  "get_FourByteString bs = (bs ! 0, bs ! 1, bs ! 2, bs ! 3)"

fun put_FourByteString :: "FourByteString \<Rightarrow> byte list" where
  "put_FourByteString (a, b, c, d) = [a, b, c, d]"

text \<open>
  \<^verbatim>\<open>binary.Read(r, binary.BigEndian, &v)\<close> for a value of fixed size: \<^verbatim>\<open>io.ReadFull\<close> of
  that many bytes, which are then laid out field by field.
\<close>

definition binary_Read :: "nat \<Rightarrow> (byte list \<Rightarrow> 'a) \<Rightarrow> reader \<Rightarrow> error + ('a \<times> reader)" where
  "binary_Read n get r =
     (case ReadFull n r of
        Inl e \<Rightarrow> Inl e
      | Inr (bs, r') \<Rightarrow> Inr (get bs, r'))"

definition get_FileHeader :: "byte list \<Rightarrow> FileHeader" where
  "get_FileHeader bs =
     \<lparr>FileType = get_FourByteString (seg 0 4 bs),
      FileVersion = be_word (seg 4 2 bs),
      FileFlags = be_word (seg 6 2 bs)\<rparr>"

definition put_FileHeader :: "FileHeader \<Rightarrow> byte list" where
  "put_FileHeader h =
     put_FourByteString (FileType h) @ word_be 2 (FileVersion h) @ word_be 2 (FileFlags h)"

definition get_ChunkHeader :: "byte list \<Rightarrow> ChunkHeader" where
  "get_ChunkHeader bs =
     \<lparr>ChunkType = get_FourByteString (seg 0 4 bs), ChunkSize = be_word (seg 4 8 bs)\<rparr>"

definition put_ChunkHeader :: "ChunkHeader \<Rightarrow> byte list" where
  "put_ChunkHeader h = put_FourByteString (ChunkType h) @ word_be 8 (ChunkSize h)"

definition get_AudioFormat :: "byte list \<Rightarrow> AudioFormat" where
  "get_AudioFormat bs =
     \<lparr>SampleRate = be_word (seg 0 8 bs),
      FormatID = get_FourByteString (seg 8 4 bs),
      FormatFlags = be_word (seg 12 4 bs),
      BytesPerPacket = be_word (seg 16 4 bs),
      FramesPerPacket = be_word (seg 20 4 bs),
      ChannelsPerPacket = be_word (seg 24 4 bs),
      BitsPerChannel = be_word (seg 28 4 bs)\<rparr>"

definition put_AudioFormat :: "AudioFormat \<Rightarrow> byte list" where
  "put_AudioFormat c =
     word_be 8 (SampleRate c) @ put_FourByteString (FormatID c) @ word_be 4 (FormatFlags c)
     @ word_be 4 (BytesPerPacket c) @ word_be 4 (FramesPerPacket c)
     @ word_be 4 (ChannelsPerPacket c) @ word_be 4 (BitsPerChannel c)"

definition get_PacketTableHeader :: "byte list \<Rightarrow> PacketTableHeader" where
  "get_PacketTableHeader bs =
     \<lparr>NumberPackets = be_word (seg 0 8 bs),
      NumberValidFrames = be_word (seg 8 8 bs),
      PrimingFramess = be_word (seg 16 4 bs),
      RemainderFrames = be_word (seg 20 4 bs)\<rparr>"

definition put_PacketTableHeader :: "PacketTableHeader \<Rightarrow> byte list" where
  "put_PacketTableHeader h =
     word_be 8 (NumberPackets h) @ word_be 8 (NumberValidFrames h)
     @ word_be 4 (PrimingFramess h) @ word_be 4 (RemainderFrames h)"

text \<open>
  A \<^verbatim>\<open>float32\<close> field of a struct does not keep every bit pattern. \<^verbatim>\<open>binary.Read\<close>
  stores it with \<^verbatim>\<open>v.SetFloat(float64(math.Float32frombits(x)))\<close> and \<^verbatim>\<open>binary.Write\<close>
  takes it out with \<^verbatim>\<open>math.Float32bits(float32(v.Float()))\<close>: either way the value is
  widened to \<^verbatim>\<open>float64\<close> and narrowed again. That is exact for every \<^verbatim>\<open>float32\<close> but a
  signalling NaN (exponent all ones, a fraction that is not zero, the quiet bit \<^verbatim>\<open>0x00400000\<close>
  clear), which the widening turns into the quiet NaN with the same fraction otherwise.
  (A \<^verbatim>\<open>float64\<close> field, \<^verbatim>\<open>SampleRate\<close>, is stored and taken out without a conversion.)
\<close>

definition signalling_NaN32 :: "32 word \<Rightarrow> bool" where
  "signalling_NaN32 w =
     (w AND 0x7F800000 = 0x7F800000 \<and> w AND 0x007FFFFF \<noteq> 0 \<and> w AND 0x00400000 = 0)"

definition float32_via_float64 :: "32 word \<Rightarrow> 32 word" where
  "float32_via_float64 w = (if signalling_NaN32 w then w OR 0x00400000 else w)"

definition get_ChannelDescription :: "byte list \<Rightarrow> ChannelDescription" where
  "get_ChannelDescription bs =
     \<lparr>ChannelLabel = be_word (seg 0 4 bs),
      ChannelFlags = be_word (seg 4 4 bs),
      Coordinates = (float32_via_float64 (be_word (seg 8 4 bs)),
                     float32_via_float64 (be_word (seg 12 4 bs)),
                     float32_via_float64 (be_word (seg 16 4 bs)))\<rparr>"

definition put_ChannelDescription :: "ChannelDescription \<Rightarrow> byte list" where
  "put_ChannelDescription d =
     word_be 4 (ChannelLabel d) @ word_be 4 (ChannelFlags d)
     @ (case Coordinates d of
          (x, y, z) \<Rightarrow> word_be 4 (float32_via_float64 x) @ word_be 4 (float32_via_float64 y)
                       @ word_be 4 (float32_via_float64 z))"

section \<open>The variable-length integer codec\<close>

lemma drop_bit7_less:
  assumes "drop_bit 7 (cur :: 64 word) \<noteq> 0"
  shows "unat (drop_bit 7 cur) < unat cur"
proof -
  have eq: "unat (drop_bit 7 cur) = unat cur div 2 ^ 7"
    by (subst unat_drop_bit_eq) (rule drop_bit_eq_div)
  have "unat (drop_bit 7 cur) \<noteq> 0"
    using assms by (simp only: unat_eq_0 not_False_eq_True)
  then have pos: "0 < unat cur"
    using eq by (cases "unat cur = 0") simp_all
  have "unat cur div 2 ^ 7 < unat cur"
    by (rule div_less_dividend) (use pos in simp_all)
  then show ?thesis using eq by simp
qed

text \<open>
  \<^verbatim>\<open>encodeInt\<close>, first loop: the 7-bit groups of \<open>i\<close>, least significant first, until
  nothing is left of the value.
\<close>

function encodeInt_groups :: "64 word \<Rightarrow> byte list \<Rightarrow> byte list" where
  "encodeInt_groups cur byts =
     (let val = (ucast (cur AND 127) :: byte);
          cur' = drop_bit 7 cur;
          byts' = byts @ [val]
      in if cur' = 0 then byts' else encodeInt_groups cur' byts')"
  by pat_completeness auto
termination
  by (relation "measure (\<lambda>(cur, byts). unat cur)") (auto intro: drop_bit7_less)

declare encodeInt_groups.simps [simp del]

text \<open>
  Second loop: from the last group down to the first, every byte but the one at index 0
  gets the continuation bit.
\<close>

fun encodeInt_emit :: "byte list \<Rightarrow> nat \<Rightarrow> byte list" where
  "encodeInt_emit byts 0 = [byts ! 0]"
| "encodeInt_emit byts (Suc i) = (byts ! Suc i OR 128) # encodeInt_emit byts i"

definition encodeInt :: "64 word \<Rightarrow> byte list" where
  "encodeInt i = (let byts = encodeInt_groups i [] in encodeInt_emit byts (length byts - 1))"

text \<open>
  \<^verbatim>\<open>decodeInt\<close>: \<^verbatim>\<open>r.ReadByte()\<close> is the head of the stream, or \<^verbatim>\<open>io.EOF\<close> at its end.
\<close>

fun decodeInt_loop :: "64 word \<Rightarrow> nat \<Rightarrow> reader \<Rightarrow> error + (64 word \<times> reader)" where
  "decodeInt_loop res bytesRead [] = Inl EOF"
| "decodeInt_loop res bytesRead (byt # r) =
     (let bytesRead' = bytesRead + 1;
          res' = push_bit 7 res;
          res'' = res' OR ucast (byt AND 127)
      in if byt AND 128 = 0 \<or> bytesRead' \<ge> 8 then Inr (res'', r)
         else decodeInt_loop res'' bytesRead' r)"

definition decodeInt :: "reader \<Rightarrow> error + (64 word \<times> reader)" where
  "decodeInt r = decodeInt_loop 0 0 r"

text \<open>One step of the accumulation in \<^verbatim>\<open>decodeInt\<close>: \<^verbatim>\<open>res = res<<7 | uint64(byt&127)\<close>.\<close>

definition varint_step :: "64 word \<Rightarrow> byte \<Rightarrow> 64 word" where
  "varint_step res byt = push_bit 7 res OR ucast (byt AND 127)"

section \<open>Payload codecs\<close>

subsection \<open>Packet table\<close>

text \<open>
  \<^verbatim>\<open>for i := 0; i < int(c.Header.NumberPackets); i++\<close>: the bound is the signed value of
  the 64-bit field, so a negative count runs the loop no time at all.
\<close>

function PacketTable_decode_loop ::
  "int \<Rightarrow> int \<Rightarrow> reader \<Rightarrow> 64 word list \<Rightarrow> error + (64 word list \<times> reader)" where
  "PacketTable_decode_loop i n r entry =
     (if i < n then
        (case decodeInt r of
           Inl err \<Rightarrow> Inl err
         | Inr (val, r') \<Rightarrow> PacketTable_decode_loop (i + 1) n r' (entry @ [val]))
      else Inr (entry, r))"
  by pat_completeness auto
termination
  by (relation "measure (\<lambda>(i, n, r, entry). nat (n - i))") auto

declare PacketTable_decode_loop.simps [simp del]

definition PacketTable_decode :: "reader \<Rightarrow> error + (PacketTable \<times> reader)" where
  "PacketTable_decode r =
     (case binary_Read 24 get_PacketTableHeader r of
        Inl err \<Rightarrow> Inl err
      | Inr (h, r1) \<Rightarrow>
          (case PacketTable_decode_loop 0 (sint (NumberPackets h)) r1 [] of
             Inl err \<Rightarrow> Inl err
           | Inr (entry, r2) \<Rightarrow> Inr (\<lparr>PacketTable.Header = h, Entry = entry\<rparr>, r2)))"

text \<open>\<^verbatim>\<open>c.Entry[i]\<close> panics when the table holds fewer entries than its header counts.\<close>

function PacketTable_encode_loop :: "int \<Rightarrow> int \<Rightarrow> 64 word list \<Rightarrow> error + byte list" where
  "PacketTable_encode_loop i n entry =
     (if i < n then
        (if 0 \<le> i \<and> nat i < length entry then
           (case PacketTable_encode_loop (i + 1) n entry of
              Inl err \<Rightarrow> Inl err
            | Inr out \<Rightarrow> Inr (encodeInt (entry ! nat i) @ out))
         else Inl PanicIndexOutOfRange)
      else Inr [])"
  by pat_completeness auto
termination
  by (relation "measure (\<lambda>(i, n, entry). nat (n - i))") auto

declare PacketTable_encode_loop.simps [simp del]

definition PacketTable_encode :: "PacketTable \<Rightarrow> error + byte list" where
  "PacketTable_encode c =
     (case PacketTable_encode_loop 0 (sint (NumberPackets (PacketTable.Header c))) (Entry c) of
        Inl err \<Rightarrow> Inl err
      | Inr out \<Rightarrow> Inr (put_PacketTableHeader (PacketTable.Header c) @ out))"

subsection \<open>Information strings\<close>

text \<open>
  \<^verbatim>\<open>readString\<close>: each byte read is appended to \<^verbatim>\<open>bs\<close> before it is tested, the zero byte
  that ends the loop included.
\<close>

fun readString_loop :: "byte list \<Rightarrow> reader \<Rightarrow> error + (byte list \<times> reader)" where
  "readString_loop bs [] = Inl EOF"
| "readString_loop bs (b # r) =
     (let bs' = bs @ [b]
      in if b = 0 then Inr (bs', r) else readString_loop bs' r)"

definition readString :: "reader \<Rightarrow> error + (byte list \<times> reader)" where
  "readString r = readString_loop [] r"

definition writeString :: "byte list \<Rightarrow> byte list" where
  "writeString s = s"

definition Information_decode :: "reader \<Rightarrow> error + (Information \<times> reader)" where
  "Information_decode r =
     (case readString r of
        Inl err \<Rightarrow> Inl err
      | Inr (key, r1) \<Rightarrow>
          (case readString r1 of
             Inl err \<Rightarrow> Inl err
           | Inr (val, r2) \<Rightarrow> Inr (\<lparr>Key = key, Value = val\<rparr>, r2)))"

definition Information_encode :: "Information \<Rightarrow> byte list" where
  "Information_encode c = writeString (Key c) @ writeString (Value c)"

text \<open>\<^verbatim>\<open>for i := uint32(0); i < c.NumEntries; i++\<close>: the counter never wraps.\<close>

function CAFStringsChunk_decode_loop ::
  "nat \<Rightarrow> nat \<Rightarrow> reader \<Rightarrow> Information list \<Rightarrow> error + (Information list \<times> reader)" where
  "CAFStringsChunk_decode_loop i n r strings =
     (if i < n then
        (case Information_decode r of
           Inl err \<Rightarrow> Inl err
         | Inr (info, r') \<Rightarrow> CAFStringsChunk_decode_loop (i + 1) n r' (strings @ [info]))
      else Inr (strings, r))"
  by pat_completeness auto
termination
  by (relation "measure (\<lambda>(i, n, r, strings). n - i)") auto

declare CAFStringsChunk_decode_loop.simps [simp del]

definition CAFStringsChunk_decode :: "reader \<Rightarrow> error + (CAFStringsChunk \<times> reader)" where
  "CAFStringsChunk_decode r =
     (case binary_Read 4 be_word r of
        Inl err \<Rightarrow> Inl err
      | Inr (n, r1) \<Rightarrow>
          (case CAFStringsChunk_decode_loop 0 (unat n) r1 [] of
             Inl err \<Rightarrow> Inl err
           | Inr (strings, r2) \<Rightarrow> Inr (\<lparr>NumEntries = n, Strings = strings\<rparr>, r2)))"

function CAFStringsChunk_encode_loop :: "nat \<Rightarrow> nat \<Rightarrow> Information list \<Rightarrow> error + byte list" where
  "CAFStringsChunk_encode_loop i n strings =
     (if i < n then
        (if i < length strings then
           (case CAFStringsChunk_encode_loop (i + 1) n strings of
              Inl err \<Rightarrow> Inl err
            | Inr out \<Rightarrow> Inr (Information_encode (strings ! i) @ out))
         else Inl PanicIndexOutOfRange)
      else Inr [])"
  by pat_completeness auto
termination
  by (relation "measure (\<lambda>(i, n, strings). n - i)") auto

declare CAFStringsChunk_encode_loop.simps [simp del]

definition CAFStringsChunk_encode :: "CAFStringsChunk \<Rightarrow> error + byte list" where
  "CAFStringsChunk_encode c =
     (case CAFStringsChunk_encode_loop 0 (unat (NumEntries c)) (Strings c) of
        Inl err \<Rightarrow> Inl err
      | Inr out \<Rightarrow> Inr (word_be 4 (NumEntries c) @ out))"

subsection \<open>Audio format and channel layout\<close>

definition AudioFormat_decode :: "reader \<Rightarrow> error + (AudioFormat \<times> reader)" where
  "AudioFormat_decode r = binary_Read 32 get_AudioFormat r"

definition AudioFormat_encode :: "AudioFormat \<Rightarrow> byte list" where
  "AudioFormat_encode c = put_AudioFormat c"

function ChannelLayout_decode_loop ::
  "nat \<Rightarrow> nat \<Rightarrow> reader \<Rightarrow> ChannelDescription list
     \<Rightarrow> error + (ChannelDescription list \<times> reader)" where
  "ChannelLayout_decode_loop i n r channels =
     (if i < n then
        (case binary_Read 20 get_ChannelDescription r of
           Inl err \<Rightarrow> Inl err
         | Inr (channelDesc, r') \<Rightarrow>
             ChannelLayout_decode_loop (i + 1) n r' (channels @ [channelDesc]))
      else Inr (channels, r))"
  by pat_completeness auto
termination
  by (relation "measure (\<lambda>(i, n, r, channels). n - i)") auto

declare ChannelLayout_decode_loop.simps [simp del]

definition ChannelLayout_decode :: "reader \<Rightarrow> error + (ChannelLayout \<times> reader)" where
  "ChannelLayout_decode r =
     (case binary_Read 4 be_word r of
        Inl err \<Rightarrow> Inl err
      | Inr (tag, r1) \<Rightarrow>
     (case binary_Read 4 be_word r1 of
        Inl err \<Rightarrow> Inl err
      | Inr (bitmap, r2) \<Rightarrow>
     (case binary_Read 4 be_word r2 of
        Inl err \<Rightarrow> Inl err
      | Inr (n, r3) \<Rightarrow>
     (case ChannelLayout_decode_loop 0 (unat n) r3 [] of
        Inl err \<Rightarrow> Inl err
      | Inr (channels, r4) \<Rightarrow>
          Inr (\<lparr>ChannelLayoutTag = tag, ChannelBitmap = bitmap,
                NumberChannelDescriptions = n, Channels = channels\<rparr>, r4)))))"

function ChannelLayout_encode_loop ::
  "nat \<Rightarrow> nat \<Rightarrow> ChannelDescription list \<Rightarrow> error + byte list" where
  "ChannelLayout_encode_loop i n channels =
     (if i < n then
        (if i < length channels then
           (case ChannelLayout_encode_loop (i + 1) n channels of
              Inl err \<Rightarrow> Inl err
            | Inr out \<Rightarrow> Inr (put_ChannelDescription (channels ! i) @ out))
         else Inl PanicIndexOutOfRange)
      else Inr [])"
  by pat_completeness auto
termination
  by (relation "measure (\<lambda>(i, n, channels). n - i)") auto

declare ChannelLayout_encode_loop.simps [simp del]

definition ChannelLayout_encode :: "ChannelLayout \<Rightarrow> error + byte list" where
  "ChannelLayout_encode c =
     (case ChannelLayout_encode_loop 0 (unat (NumberChannelDescriptions c)) (Channels c) of
        Inl err \<Rightarrow> Inl err
      | Inr out \<Rightarrow>
          Inr (word_be 4 (ChannelLayoutTag c) @ word_be 4 (ChannelBitmap c)
               @ word_be 4 (NumberChannelDescriptions c) @ out))"

subsection \<open>Audio data\<close>

text \<open>
  \<^verbatim>\<open>Data.decode\<close>: the size comes from the chunk header. \<^verbatim>\<open>h.ChunkSize - 4\<close> is 64-bit
  arithmetic and wraps; the limit of the reader is its signed value.
\<close>

definition Data_decode :: "reader \<Rightarrow> ChunkHeader \<Rightarrow> error + (Data \<times> reader)" where
  "Data_decode r h =
     (case binary_Read 4 be_word r of
        Inl err \<Rightarrow> Inl err
      | Inr (editCount, r1) \<Rightarrow>
          if ChunkSize h = - 1 then
            (case ReadAll r1 of (data, r2) \<Rightarrow> Inr (\<lparr>EditCount = editCount, Data = data\<rparr>, r2))
          else
            (let dataLength = ChunkSize h - 4
             in case ReadAll_LimitReader (sint dataLength) r1 of
                  (data, r2) \<Rightarrow> Inr (\<lparr>EditCount = editCount, Data = data\<rparr>, r2)))"

definition Data_encode :: "Data \<Rightarrow> byte list" where
  "Data_encode c = word_be 4 (EditCount c) @ Data c"

section \<open>The chunk framer\<close>

text \<open>
  \<^verbatim>\<open>Chunk.decode\<close>: the 12-byte header, then the payload decoder its tag selects. The
  \<^verbatim>\<open>midi\<close> and the default branch allocate \<^verbatim>\<open>make([]byte, c.Header.ChunkSize)\<close> before
  they read.
\<close>

definition Chunk_decode :: "int \<Rightarrow> reader \<Rightarrow> error + (Chunk \<times> reader)" where
  "Chunk_decode lim r =
     (case binary_Read 12 get_ChunkHeader r of
        Inl err \<Rightarrow> Inl err
      | Inr (h, r1) \<Rightarrow>
          if ChunkType h = ChunkTypeAudioDescription then
            (case AudioFormat_decode r1 of
               Inl err \<Rightarrow> Inl err
             | Inr (cc, r2) \<Rightarrow> Inr (\<lparr>Chunk.Header = h, Contents = PAudioFormat cc\<rparr>, r2))
          else if ChunkType h = ChunkTypeChannelLayout then
            (case ChannelLayout_decode r1 of
               Inl err \<Rightarrow> Inl err
             | Inr (cc, r2) \<Rightarrow> Inr (\<lparr>Chunk.Header = h, Contents = PChannelLayout cc\<rparr>, r2))
          else if ChunkType h = ChunkTypeInformation then
            (case CAFStringsChunk_decode r1 of
               Inl err \<Rightarrow> Inl err
             | Inr (cc, r2) \<Rightarrow> Inr (\<lparr>Chunk.Header = h, Contents = PCAFStringsChunk cc\<rparr>, r2))
          else if ChunkType h = ChunkTypeAudioData then
            (case Data_decode r1 h of
               Inl err \<Rightarrow> Inl err
             | Inr (cc, r2) \<Rightarrow> Inr (\<lparr>Chunk.Header = h, Contents = PData cc\<rparr>, r2))
          else if ChunkType h = ChunkTypePacketTable then
            (case PacketTable_decode r1 of
               Inl err \<Rightarrow> Inl err
             | Inr (cc, r2) \<Rightarrow> Inr (\<lparr>Chunk.Header = h, Contents = PPacketTable cc\<rparr>, r2))
          else if ChunkType h = ChunkTypeMidi then
            (case make_bytes lim (sint (ChunkSize h)) of
               Inl err \<Rightarrow> Inl err
             | Inr n \<Rightarrow>
                 (case binary_Read n (\<lambda>ba. ba) r1 of
                    Inl err \<Rightarrow> Inl err
                  | Inr (ba, r2) \<Rightarrow> Inr (\<lparr>Chunk.Header = h, Contents = VMidi ba\<rparr>, r2)))
          else
            (case make_bytes lim (sint (ChunkSize h)) of
               Inl err \<Rightarrow> Inl err
             | Inr n \<Rightarrow>
                 (case binary_Read n (\<lambda>ba. ba) r1 of
                    Inl err \<Rightarrow> Inl err
                  | Inr (ba, r2) \<Rightarrow>
                      Inr (\<lparr>Chunk.Header = h, Contents = PUnknownContents ba\<rparr>, r2))))"

text \<open>
  \<^verbatim>\<open>Chunk.Encode\<close>: the header as stored, then the payload encoder the tag selects; each
  branch asserts the dynamic type of \<^verbatim>\<open>Contents\<close> and panics on any other. (The \<^verbatim>\<open>data\<close>
  and \<^verbatim>\<open>pakt\<close> branches end by overwriting \<^verbatim>\<open>c.Contents\<close> of the receiver; \<^verbatim>\<open>File.Encode\<close>
  calls \<^verbatim>\<open>Encode\<close> on a copy of each chunk, so nothing written depends on it.)
\<close>

definition Chunk_Encode :: "Chunk \<Rightarrow> error + byte list" where
  "Chunk_Encode c =
     (let hd_bytes = put_ChunkHeader (Chunk.Header c);
          ty = ChunkType (Chunk.Header c)
      in if ty = ChunkTypeAudioDescription then
           (case Contents c of
              PAudioFormat cc \<Rightarrow> Inr (hd_bytes @ AudioFormat_encode cc)
            | _ \<Rightarrow> Inl PanicTypeAssertion)
         else if ty = ChunkTypeChannelLayout then
           (case Contents c of
              PChannelLayout cc \<Rightarrow>
                (case ChannelLayout_encode cc of
                   Inl err \<Rightarrow> Inl err
                 | Inr out \<Rightarrow> Inr (hd_bytes @ out))
            | _ \<Rightarrow> Inl PanicTypeAssertion)
         else if ty = ChunkTypeInformation then
           (case Contents c of
              PCAFStringsChunk cc \<Rightarrow>
                (case CAFStringsChunk_encode cc of
                   Inl err \<Rightarrow> Inl err
                 | Inr out \<Rightarrow> Inr (hd_bytes @ out))
            | _ \<Rightarrow> Inl PanicTypeAssertion)
         else if ty = ChunkTypeAudioData then
           (case Contents c of
              PData cc \<Rightarrow> Inr (hd_bytes @ Data_encode cc)
            | _ \<Rightarrow> Inl PanicTypeAssertion)
         else if ty = ChunkTypePacketTable then
           (case Contents c of
              PPacketTable cc \<Rightarrow>
                (case PacketTable_encode cc of
                   Inl err \<Rightarrow> Inl err
                 | Inr out \<Rightarrow> Inr (hd_bytes @ out))
            | _ \<Rightarrow> Inl PanicTypeAssertion)
         else if ty = ChunkTypeMidi then
           (case Contents c of
              VMidi midi \<Rightarrow> Inr (hd_bytes @ midi)
            | _ \<Rightarrow> Inl PanicTypeAssertion)
         else
           (case Contents c of
              PUnknownContents data \<Rightarrow> Inr (hd_bytes @ data)
            | _ \<Rightarrow> Inl PanicTypeAssertion))"

section \<open>The file codec\<close>

definition FileHeader_Decode :: "reader \<Rightarrow> error + (FileHeader \<times> reader)" where
  "FileHeader_Decode r =
     (case binary_Read 8 get_FileHeader r of
        Inl err \<Rightarrow> Inl err
      | Inr (h, r') \<Rightarrow>
          if FileType h \<noteq> stringToChunkType ''caff'' then Inl ErrInvalidCaffHeader
          else Inr (h, r'))"

definition FileHeader_Encode :: "FileHeader \<Rightarrow> error + byte list" where
  "FileHeader_Encode h = Inr (put_FileHeader h)"



section \<open>Every decoder consumes a prefix of the stream\<close>

lemma ReadFull_Inr:
  "ReadFull n r = Inr (bs, r') \<Longrightarrow> r = bs @ r' \<and> length bs = n"
  by (auto simp: ReadFull_def split: if_splits)

lemma binary_Read_Inr:
  "binary_Read n g r = Inr (v, r') \<Longrightarrow> \<exists>bs. r = bs @ r' \<and> length bs = n \<and> v = g bs"
  by (auto simp: binary_Read_def split: sum.splits dest: ReadFull_Inr)

lemma binary_Read_length:
  "binary_Read n g r = Inr (v, r') \<Longrightarrow> length r = n + length r'"
  by (auto dest: binary_Read_Inr)

lemma decodeInt_loop_length:
  "decodeInt_loop res k r = Inr (v, r') \<Longrightarrow> length r' < length r"
proof (induction r arbitrary: res k)
  case Nil
  then show ?case by simp
next
  case (Cons a r)
  show ?case
  proof (cases "a AND 128 = 0 \<or> k + 1 \<ge> 8")
    case True
    with Cons.prems show ?thesis by (auto simp: Let_def)
  next
    case False
    with Cons.prems
    have "decodeInt_loop (push_bit 7 res OR ucast (a AND 127)) (k + 1) r = Inr (v, r')"
      by (simp add: Let_def)
    from Cons.IH[OF this] show ?thesis by simp
  qed
qed

lemma decodeInt_length: "decodeInt r = Inr (v, r') \<Longrightarrow> length r' < length r"
  unfolding decodeInt_def by (rule decodeInt_loop_length)

lemma PacketTable_decode_loop_length:
  "PacketTable_decode_loop i n r entry = Inr (es, r') \<Longrightarrow> length r' \<le> length r"
proof (induction i n r entry rule: PacketTable_decode_loop.induct)
  case (1 i n r entry)
  show ?case
  proof (cases "i < n")
    case True
    with "1.prems" PacketTable_decode_loop.simps[of i n r entry] obtain val r1 where d: "decodeInt r = Inr (val, r1)"
      and rec: "PacketTable_decode_loop (i + 1) n r1 (entry @ [val]) = Inr (es, r')"
      by (auto split: sum.splits)
    from "1.IH"[OF True d refl rec] decodeInt_length[OF d] show ?thesis by simp
  next
    case False
    with "1.prems" show ?thesis by (simp add: PacketTable_decode_loop.simps)
  qed
qed

lemma PacketTable_decode_length:
  "PacketTable_decode r = Inr (c, r') \<Longrightarrow> length r' \<le> length r"
  by (auto simp: PacketTable_decode_def split: sum.splits
      dest!: binary_Read_length PacketTable_decode_loop_length)

lemma readString_loop_length:
  "readString_loop bs r = Inr (s, r') \<Longrightarrow> length r' < length r"
proof (induction r arbitrary: bs)
  case Nil
  then show ?case by simp
next
  case (Cons a r)
  show ?case
  proof (cases "a = 0")
    case True
    with Cons.prems show ?thesis by (auto simp: Let_def)
  next
    case False
    with Cons.prems have "readString_loop (bs @ [a]) r = Inr (s, r')"
      by (simp add: Let_def)
    from Cons.IH[OF this] show ?thesis by simp
  qed
qed

lemma Information_decode_length:
  "Information_decode r = Inr (c, r') \<Longrightarrow> length r' < length r"
  by (auto simp: Information_decode_def readString_def split: sum.splits
      dest!: readString_loop_length)

lemma CAFStringsChunk_decode_loop_length:
  "CAFStringsChunk_decode_loop i n r strings = Inr (es, r') \<Longrightarrow> length r' \<le> length r"
proof (induction i n r strings rule: CAFStringsChunk_decode_loop.induct)
  case (1 i n r strings)
  show ?case
  proof (cases "i < n")
    case True
    with "1.prems" CAFStringsChunk_decode_loop.simps[of i n r strings] obtain info r1 where d: "Information_decode r = Inr (info, r1)"
      and rec: "CAFStringsChunk_decode_loop (i + 1) n r1 (strings @ [info]) = Inr (es, r')"
      by (auto split: sum.splits)
    from "1.IH"[OF True d refl rec] Information_decode_length[OF d] show ?thesis by simp
  next
    case False
    with "1.prems" show ?thesis by (simp add: CAFStringsChunk_decode_loop.simps)
  qed
qed

lemma CAFStringsChunk_decode_length:
  "CAFStringsChunk_decode r = Inr (c, r') \<Longrightarrow> length r' \<le> length r"
  by (auto simp: CAFStringsChunk_decode_def split: sum.splits
      dest!: binary_Read_length CAFStringsChunk_decode_loop_length)

lemma ChannelLayout_decode_loop_length:
  "ChannelLayout_decode_loop i n r channels = Inr (es, r') \<Longrightarrow> length r' \<le> length r"
proof (induction i n r channels rule: ChannelLayout_decode_loop.induct)
  case (1 i n r channels)
  show ?case
  proof (cases "i < n")
    case True
    with "1.prems" ChannelLayout_decode_loop.simps[of i n r channels] obtain d r1 where d: "binary_Read 20 get_ChannelDescription r = Inr (d, r1)"
      and rec: "ChannelLayout_decode_loop (i + 1) n r1 (channels @ [d]) = Inr (es, r')"
      by (auto split: sum.splits)
    from "1.IH"[OF True d refl rec] binary_Read_length[OF d] show ?thesis by simp
  next
    case False
    with "1.prems" show ?thesis by (simp add: ChannelLayout_decode_loop.simps)
  qed
qed

lemma ChannelLayout_decode_length:
  "ChannelLayout_decode r = Inr (c, r') \<Longrightarrow> length r' \<le> length r"
  by (auto simp: ChannelLayout_decode_def split: sum.splits
      dest!: binary_Read_length ChannelLayout_decode_loop_length)

lemma Data_decode_length:
  "Data_decode r h = Inr (c, r') \<Longrightarrow> length r' \<le> length r"
  by (auto simp: Data_decode_def ReadAll_def ReadAll_LimitReader_def Let_def
      split: sum.splits if_splits dest!: binary_Read_length)

lemma AudioFormat_decode_length:
  "AudioFormat_decode r = Inr (c, r') \<Longrightarrow> length r' \<le> length r"
  by (auto simp: AudioFormat_decode_def dest!: binary_Read_length)

lemma Chunk_decode_length:
  assumes "Chunk_decode lim r = Inr (c, r')"
  shows "length r' + 12 \<le> length r"
proof (cases "binary_Read 12 get_ChunkHeader r")
  case (Inl e)
  with assms show ?thesis by (simp add: Chunk_decode_def)
next
  case (Inr p)
  obtain h r1 where p: "p = (h, r1)" by (cases p)
  have len: "length r = 12 + length r1"
    using Inr p by (auto dest: binary_Read_length)
  have "length r' \<le> length r1"
  proof -
    consider (desc) "ChunkType h = ChunkTypeAudioDescription"
      | (chan) "ChunkType h \<noteq> ChunkTypeAudioDescription" "ChunkType h = ChunkTypeChannelLayout"
      | (info) "ChunkType h \<noteq> ChunkTypeAudioDescription" "ChunkType h \<noteq> ChunkTypeChannelLayout"
          "ChunkType h = ChunkTypeInformation"
      | (data) "ChunkType h \<noteq> ChunkTypeAudioDescription" "ChunkType h \<noteq> ChunkTypeChannelLayout"
          "ChunkType h \<noteq> ChunkTypeInformation" "ChunkType h = ChunkTypeAudioData"
      | (pakt) "ChunkType h \<noteq> ChunkTypeAudioDescription" "ChunkType h \<noteq> ChunkTypeChannelLayout"
          "ChunkType h \<noteq> ChunkTypeInformation" "ChunkType h \<noteq> ChunkTypeAudioData"
          "ChunkType h = ChunkTypePacketTable"
      | (blob) "ChunkType h \<noteq> ChunkTypeAudioDescription" "ChunkType h \<noteq> ChunkTypeChannelLayout"
          "ChunkType h \<noteq> ChunkTypeInformation" "ChunkType h \<noteq> ChunkTypeAudioData"
          "ChunkType h \<noteq> ChunkTypePacketTable"
      by blast
    then show ?thesis
    proof cases
      case desc
      with assms Inr p show ?thesis
        by (auto simp: Chunk_decode_def split: sum.splits dest!: AudioFormat_decode_length)
    next
      case chan
      with assms Inr p show ?thesis
        by (auto simp: Chunk_decode_def split: sum.splits dest!: ChannelLayout_decode_length)
    next
      case info
      with assms Inr p show ?thesis
        by (auto simp: Chunk_decode_def split: sum.splits dest!: CAFStringsChunk_decode_length)
    next
      case data
      with assms Inr p show ?thesis
        by (auto simp: Chunk_decode_def split: sum.splits dest!: Data_decode_length)
    next
      case pakt
      with assms Inr p show ?thesis
        by (auto simp: Chunk_decode_def split: sum.splits dest!: PacketTable_decode_length)
    next
      case blob
      with assms Inr p show ?thesis
        by (auto simp: Chunk_decode_def split: sum.splits if_splits dest!: binary_Read_length)
    qed
  qed
  with len show ?thesis by simp
qed

text \<open>
  The loop of \<^verbatim>\<open>File.Decode\<close>. It terminates because a chunk that decodes takes at least
  its 12 header bytes off the stream.
\<close>

function File_Decode_loop :: "int \<Rightarrow> reader \<Rightarrow> Chunk list \<Rightarrow> error + Chunk list" where
  "File_Decode_loop lim r chunks =
     (case Chunk_decode lim r of
        Inl err \<Rightarrow> if err = EOF then Inr chunks else Inl err
      | Inr (c, r') \<Rightarrow> File_Decode_loop lim r' (chunks @ [c]))"
  by pat_completeness auto
termination
  by (relation "measure (\<lambda>(lim, r, chunks). length r)")
    (auto dest!: Chunk_decode_length)

declare File_Decode_loop.simps [simp del]

text \<open>
  \<^verbatim>\<open>File.Decode\<close> on the receiver \<open>cf\<close>: the header is stored only once it has been
  accepted, and the chunks are appended to those the receiver already holds. The loop
  ends without an error on \<^verbatim>\<open>io.EOF\<close>, whichever read of \<^verbatim>\<open>Chunk.decode\<close> reported it.
\<close>

definition File_Decode :: "int \<Rightarrow> File \<Rightarrow> reader \<Rightarrow> error + File" where
  "File_Decode lim cf r =
     (case FileHeader_Decode r of
        Inl err \<Rightarrow> Inl err
      | Inr (fileHeader, r') \<Rightarrow>
          (case File_Decode_loop lim r' (Chunks cf) of
             Inl err \<Rightarrow> Inl err
           | Inr chunks \<Rightarrow> Inr \<lparr>FileHeader = fileHeader, Chunks = chunks\<rparr>))"

text \<open>The zero value \<^verbatim>\<open>File{}\<close> a caller starts from.\<close>

definition File_zero :: File where
  "File_zero = \<lparr>FileHeader = \<lparr>FileType = (0, 0, 0, 0), FileVersion = 0, FileFlags = 0\<rparr>,
                 Chunks = []\<rparr>"

section \<open>Notions used to state the properties\<close>

text \<open>
  \<open>decodes_chunks lim r cs r'\<close>: started on the stream \<open>r\<close>, the loop of \<^verbatim>\<open>File.Decode\<close>
  decodes the chunks \<open>cs\<close> one after the other and stands on the stream \<open>r'\<close>, at the
  start of the next chunk header.
\<close>

inductive decodes_chunks :: "int \<Rightarrow> reader \<Rightarrow> Chunk list \<Rightarrow> reader \<Rightarrow> bool" for lim where
  none: "decodes_chunks lim r [] r"
| more: "Chunk_decode lim r = Inr (c, r1) \<Longrightarrow> decodes_chunks lim r1 cs r' \<Longrightarrow>
           decodes_chunks lim r (c # cs) r'"

text \<open>
  A \<^verbatim>\<open>midi\<close> or unrecognised chunk whose declared size \<^verbatim>\<open>make\<close> cannot allocate.
\<close>

definition bad_blob_size :: "int \<Rightarrow> ChunkHeader \<Rightarrow> bool" where
  "bad_blob_size lim h =
     ((ChunkType h = ChunkTypeMidi \<or> unknown_tag (ChunkType h))
      \<and> (sint (ChunkSize h) < 0 \<or> lim < sint (ChunkSize h)))"

text \<open>
  A read of \<open>n\<close> bytes that the end of the stream cuts short: at least one of its bytes
  is there and at least one is missing.
\<close>

definition partial_read :: "nat \<Rightarrow> reader \<Rightarrow> bool" where
  "partial_read n r = (0 < length r \<and> length r < n)"

text \<open>
  \<open>ends_inside_read lim t\<close>: the stream \<open>t\<close>, which stands at the start of a chunk, ends
  inside one of the fixed-size reads of that chunk. The reads are the 12-byte chunk header
  and then, by the tag of the header,
  \<^item> \<^verbatim>\<open>desc\<close>: the 32-byte audio description;
  \<^item> \<^verbatim>\<open>chan\<close>: the layout tag, the bitmap and the count \<open>N\<close>, 4 bytes each, then \<open>N\<close>
    channel descriptions of 20 bytes each (the stream ends inside one of them when fewer
    than \<open>20 N\<close> bytes follow the count and their number is not a multiple of 20);
  \<^item> \<^verbatim>\<open>info\<close>: the 4-byte count (the strings are read byte by byte);
  \<^item> \<^verbatim>\<open>data\<close>: the 4-byte edit count (the blob is read with \<^verbatim>\<open>ioutil.ReadAll\<close>);
  \<^item> \<^verbatim>\<open>pakt\<close>: the 24-byte table header (the entries are read byte by byte);
  \<^item> \<^verbatim>\<open>midi\<close> and every other tag: the whole blob, when its declared size can be
    allocated.
\<close>

definition ends_inside_read :: "int \<Rightarrow> reader \<Rightarrow> bool" where
  "ends_inside_read lim t =
     (partial_read 12 t \<or>
      (12 \<le> length t \<and>
       (let h = get_ChunkHeader (take 12 t); p = drop 12 t
        in if ChunkType h = ChunkTypeAudioDescription then partial_read 32 p
           else if ChunkType h = ChunkTypeChannelLayout then
             partial_read 4 p \<or> partial_read 4 (drop 4 p) \<or> partial_read 4 (drop 8 p)
             \<or> (12 \<le> length p
                \<and> length (drop 12 p) < 20 * unat (be_word (seg 8 4 p) :: 32 word)
                \<and> length (drop 12 p) mod 20 \<noteq> 0)
           else if ChunkType h = ChunkTypeInformation then partial_read 4 p
           else if ChunkType h = ChunkTypeAudioData then partial_read 4 p
           else if ChunkType h = ChunkTypePacketTable then partial_read 24 p
           else 0 \<le> sint (ChunkSize h) \<and> sint (ChunkSize h) \<le> lim
                \<and> partial_read (nat (sint (ChunkSize h))) p)))"

text \<open>The two errors with which a read reports the end of the stream.\<close>

definition end_of_stream :: "error \<Rightarrow> bool" where
  "end_of_stream e = (e = EOF \<or> e = ErrUnexpectedEOF)"

section \<open>The byte format of a valid file\<close>

text \<open>
  What the specification calls a valid CAF byte sequence, written down from its sections
  3, 4.1 and 6 and not from the code, so that the codec can be compared with it.

  A variable-length integer is at most 8 bytes, every byte but the last with the
  continuation bit set and the last with it clear, in the minimal form the specification
  describes: no leading group of seven zero bits (the value 0 is the single byte zero).
\<close>

definition spec_varint :: "byte list \<Rightarrow> bool" where
  "spec_varint bs =
     (bs \<noteq> [] \<and> length bs \<le> 8 \<and> (\<forall>b \<in> set (butlast bs). b AND 128 \<noteq> 0)
      \<and> last bs AND 128 = 0 \<and> (1 < length bs \<longrightarrow> hd bs \<noteq> 128))"

text \<open>The value of 7-bit groups listed least significant first.\<close>

definition groups_value :: "byte list \<Rightarrow> 64 word" where
  "groups_value gs = foldr (\<lambda>g acc. varint_step acc g) gs 0"

text \<open>A string of the information table: bytes other than zero, then the zero byte.\<close>

definition spec_string :: "byte list \<Rightarrow> bool" where
  "spec_string s = (\<exists>body. s = body @ [0] \<and> 0 \<notin> set body)"

text \<open>
  The 20 bytes of a channel description none of whose three coordinates is a signalling
  NaN.
\<close>

definition quiet_coordinates :: "byte list \<Rightarrow> bool" where
  "quiet_coordinates d =
     (\<not> signalling_NaN32 (be_word (seg 8 4 d)) \<and> \<not> signalling_NaN32 (be_word (seg 12 4 d))
      \<and> \<not> signalling_NaN32 (be_word (seg 16 4 d)))"

text \<open>
  The payload \<open>p\<close> that may follow a chunk header \<open>h\<close>, by the tag of \<open>h\<close>:
  \<^item> \<^verbatim>\<open>desc\<close>: the 32-byte audio description;
  \<^item> \<^verbatim>\<open>chan\<close>: layout tag, bitmap and count \<open>N\<close>, 4 bytes each, then \<open>N\<close> descriptions of
    20 bytes;
  \<^item> \<^verbatim>\<open>info\<close>: a 4-byte count \<open>N\<close>, then \<open>N\<close> pairs of strings;
  \<^item> \<^verbatim>\<open>data\<close>: at least the 4-byte edit count; as many bytes as the header declares, or
    any number with the sentinel size \<open>-1\<close>;
  \<^item> \<^verbatim>\<open>pakt\<close>: the 24-byte table header, then as many variable-length integers as its
    packet count says;
  \<^item> \<^verbatim>\<open>midi\<close> and every other tag: as many bytes as the header declares, a number that
    is not negative and that can be allocated (\<open>lim\<close>).
  The declared size of a \<^verbatim>\<open>desc\<close>, \<^verbatim>\<open>chan\<close>, \<^verbatim>\<open>info\<close> or \<^verbatim>\<open>pakt\<close> chunk is not
  constrained here: the codec never reads it.

  The specification puts no condition on the coordinates of a channel description. The
  flag \<open>quiet\<close> selects the narrower format that does: with \<open>quiet\<close> set, no coordinate is
  a signalling NaN.
\<close>

definition spec_payload :: "bool \<Rightarrow> int \<Rightarrow> ChunkHeader \<Rightarrow> byte list \<Rightarrow> bool" where
  "spec_payload quiet lim h p =
     (if ChunkType h = ChunkTypeAudioDescription then length p = 32
      else if ChunkType h = ChunkTypeChannelLayout then
        (\<exists>tag bitmap cnt descs. length tag = 4 \<and> length bitmap = 4 \<and> length cnt = 4
           \<and> length descs = unat (be_word cnt :: 32 word)
           \<and> (\<forall>d \<in> set descs. length d = 20 \<and> (quiet \<longrightarrow> quiet_coordinates d))
           \<and> p = tag @ bitmap @ cnt @ concat descs)
      else if ChunkType h = ChunkTypeInformation then
        (\<exists>cnt entries. length cnt = 4 \<and> length entries = unat (be_word cnt :: 32 word)
           \<and> (\<forall>(k, v) \<in> set entries. spec_string k \<and> spec_string v)
           \<and> p = cnt @ concat (map (\<lambda>(k, v). k @ v) entries))
      else if ChunkType h = ChunkTypeAudioData then
        (4 \<le> length p \<and> (ChunkSize h = - 1 \<or> int (length p) = sint (ChunkSize h)))
      else if ChunkType h = ChunkTypePacketTable then
        (\<exists>hdr vs. length hdr = 24 \<and> int (length vs) = sint (be_word (seg 0 8 hdr) :: 64 word)
           \<and> (\<forall>v \<in> set vs. spec_varint v) \<and> p = hdr @ concat vs)
      else 0 \<le> sint (ChunkSize h) \<and> sint (ChunkSize h) \<le> lim
           \<and> int (length p) = sint (ChunkSize h))"

text \<open>
  A sequence of chunks, each a 12-byte header and its payload; a \<^verbatim>\<open>data\<close> chunk of
  sentinel size runs to the end of the stream, so it is the last one. A file in the format
  is the 8-byte file header with the tag \<^verbatim>\<open>caff\<close>, then such a sequence.
\<close>

inductive spec_chunks :: "bool \<Rightarrow> int \<Rightarrow> byte list \<Rightarrow> bool" for quiet lim where
  empty: "spec_chunks quiet lim []"
| chunk: "length hdr = 12 \<Longrightarrow> spec_payload quiet lim (get_ChunkHeader hdr) p \<Longrightarrow>
          (ChunkType (get_ChunkHeader hdr) = ChunkTypeAudioData
             \<and> ChunkSize (get_ChunkHeader hdr) = - 1 \<longrightarrow> rest = []) \<Longrightarrow>
          spec_chunks quiet lim rest \<Longrightarrow> spec_chunks quiet lim (hdr @ p @ rest)"

definition caf_format :: "bool \<Rightarrow> int \<Rightarrow> byte list \<Rightarrow> bool" where
  "caf_format quiet lim B =
     (\<exists>fh rest. length fh = 8 \<and> take 4 fh = put_FourByteString (stringToChunkType ''caff'')
        \<and> B = fh @ rest \<and> spec_chunks quiet lim rest)"

text \<open>
  \<open>valid_caf\<close>: a valid CAF byte sequence, as the specification has it. \<open>quiet_caf\<close>: a
  valid CAF byte sequence in which no coordinate of a channel description is a signalling
  NaN.
\<close>

definition valid_caf :: "int \<Rightarrow> byte list \<Rightarrow> bool" where
  "valid_caf lim B = caf_format False lim B"

definition quiet_caf :: "int \<Rightarrow> byte list \<Rightarrow> bool" where
  "quiet_caf lim B = caf_format True lim B"

section \<open>Facts about the variable-length integers\<close>

lemma numeral_127_mask: "(127 :: 'a::len word) = mask 7" by (simp add: mask_eq_exp_minus_1)

lemma continuation_bit_set: "(b OR 128) AND 128 \<noteq> (0::byte)"
proof -
  have "(b OR 128) AND 128 = (128::byte)" by simp
  then show ?thesis by simp
qed

lemma continuation_bit_payload: "(b OR 128) AND 127 = b AND (127::byte)"
  by (simp add: bit.conj_disj_distrib2)

lemma group_high_bit_clear: "(ucast (cur AND (127 :: 64 word)) :: byte) AND 128 = 0"
  by (simp add: unsigned_and_eq word_bw_assocs)

lemma group_ucast_back: "ucast ((ucast (cur AND (127::64 word)) :: byte) AND 127) = cur AND (127 :: 64 word)"
  apply (rule bit_eqI)
  apply (simp only: numeral_127_mask bit_ucast_iff bit_and_iff bit_mask_iff)
  apply auto
  done

lemma split_low_seven: "push_bit 7 (drop_bit 7 cur) OR (cur AND 127) = (cur :: 64 word)"
  apply (rule bit_eqI)
  apply (simp only: numeral_127_mask bit_or_iff bit_and_iff bit_mask_iff bit_push_bit_iff bit_drop_bit_eq)
  apply (auto simp: not_less dest: bit_imp_le_length)
  done

lemma less_2p_bits:
  assumes "n < 64"
  shows "((w :: 64 word) < 2 ^ n) = (\<forall>i. bit w i \<longrightarrow> i < n)"
proof -
  have "(w < 2 ^ n) = (w AND mask n = w)"
    using assms by (simp add: mask_eq_iff_w2p word_size)
  also have "\<dots> = (\<forall>i. bit w i \<longrightarrow> i < n)"
  proof
    assume a: "w AND mask n = w"
    show "\<forall>i. bit w i \<longrightarrow> i < n"
    proof (intro allI impI)
      fix i assume "bit w i"
      with a have "bit (w AND mask n) i" by simp
      then show "i < n" by (simp add: bit_and_iff bit_mask_iff)
    qed
  next
    assume "\<forall>i. bit w i \<longrightarrow> i < n"
    then show "w AND mask n = w"
      by (intro bit_eqI) (auto simp: bit_and_iff bit_mask_iff)
  qed
  finally show ?thesis .
qed

lemma varint_step_less:
  assumes "res < 2 ^ (7 * m)" "7 * m + 7 < 64"
  shows "push_bit 7 (res :: 64 word) OR ucast (b AND 127 :: byte) < 2 ^ (7 * m + 7)"
proof -
  have r: "\<forall>i. bit res i \<longrightarrow> i < 7 * m"
    using assms less_2p_bits[of "7 * m" res] by simp
  have "\<forall>i. bit (push_bit 7 res OR ucast (b AND 127 :: byte) :: 64 word) i \<longrightarrow> i < 7 * m + 7"
  proof (intro allI impI)
    fix i assume "bit (push_bit 7 res OR ucast (b AND 127 :: byte) :: 64 word) i"
    then consider "7 \<le> i" "bit res (i - 7)" | "bit (mask 7 :: byte) i"
      by (auto simp: bit_or_iff bit_push_bit_iff bit_ucast_iff bit_and_iff numeral_127_mask)
    then show "i < 7 * m + 7"
    proof cases
      case 1
      with r have "i - 7 < 7 * m" by blast
      with 1 show ?thesis by simp
    next
      case 2
      then show ?thesis by (simp add: bit_mask_iff)
    qed
  qed
  then show ?thesis using assms less_2p_bits[of "7 * m + 7"] by simp
qed

lemma drop_bit7_bound:
  assumes "cur < 2 ^ (7 * Suc n)" "7 * Suc n < 64"
  shows "drop_bit 7 (cur :: 64 word) < 2 ^ (7 * n)"
proof -
  have r: "\<forall>i. bit cur i \<longrightarrow> i < 7 * Suc n"
    using assms less_2p_bits[of "7 * Suc n" cur] by simp
  have "\<forall>i. bit (drop_bit 7 cur) i \<longrightarrow> i < 7 * n"
  proof (intro allI impI)
    fix i assume "bit (drop_bit 7 cur) i"
    then have "bit cur (7 + i)" by (simp add: bit_drop_bit_eq)
    with r have "7 + i < 7 * Suc n" by blast
    then show "i < 7 * n" by simp
  qed
  then show ?thesis using assms less_2p_bits[of "7 * n" "drop_bit 7 cur"] by simp
qed

lemma drop_bit7_zero: "cur < 2 ^ 7 \<Longrightarrow> drop_bit 7 cur = (0 :: 64 word)"
  using drop_bit7_bound[of cur 0] by simp


lemma encodeInt_groups_acc:
  "encodeInt_groups cur byts = byts @ encodeInt_groups cur []"
proof (induction "unat cur" arbitrary: cur byts rule: less_induct)
  case less
  show ?case
  proof (cases "drop_bit 7 cur = 0")
    case True
    then show ?thesis
      by (simp add: encodeInt_groups.simps[of cur byts] encodeInt_groups.simps[of cur "[]"])
  next
    case False
    note lt = drop_bit7_less[OF False]
    have a: "encodeInt_groups (drop_bit 7 cur) (byts @ [ucast (cur AND 127)])
          = (byts @ [ucast (cur AND 127)]) @ encodeInt_groups (drop_bit 7 cur) []"
      by (rule less.hyps[OF lt])
    have b: "encodeInt_groups (drop_bit 7 cur) [ucast (cur AND 127)]
          = [ucast (cur AND 127)] @ encodeInt_groups (drop_bit 7 cur) []"
      by (rule less.hyps[OF lt])
    show ?thesis
      using False a b
      by (simp add: encodeInt_groups.simps[of cur byts] encodeInt_groups.simps[of cur "[]"])
  qed
qed

lemma encodeInt_groups_unfold:
  "encodeInt_groups cur [] =
     ucast (cur AND 127) #
       (if drop_bit 7 cur = 0 then [] else encodeInt_groups (drop_bit 7 cur) [])"
  using encodeInt_groups_acc[of "drop_bit 7 cur" "[ucast (cur AND 127)]"]
  by (simp add: encodeInt_groups.simps[of cur "[]"])

lemma encodeInt_groups_nonempty: "encodeInt_groups cur [] \<noteq> []"
  by (subst encodeInt_groups_unfold) simp

lemma encodeInt_groups_length:
  "cur < 2 ^ (7 * n) \<Longrightarrow> 1 \<le> n \<Longrightarrow> n \<le> 8 \<Longrightarrow> length (encodeInt_groups cur []) \<le> n"
proof (induction n arbitrary: cur)
  case 0
  then show ?case by simp
next
  case (Suc n)
  show ?case
  proof (cases "drop_bit 7 cur = 0")
    case True
    then show ?thesis by (subst encodeInt_groups_unfold) simp
  next
    case False
    have d: "drop_bit 7 cur < 2 ^ (7 * n)"
      using Suc.prems by (intro drop_bit7_bound) simp_all
    have "n \<noteq> 0"
    proof
      assume "n = 0"
      with d False show False by simp
    qed
    then have "length (encodeInt_groups (drop_bit 7 cur) []) \<le> n"
      using Suc.prems d by (intro Suc.IH) simp_all
    with False show ?thesis by (subst encodeInt_groups_unfold) simp
  qed
qed

lemma groups_value:
  "foldr (\<lambda>g acc. varint_step acc g) (encodeInt_groups cur []) 0 = cur"
proof (induction "unat cur" arbitrary: cur rule: less_induct)
  case less
  show ?case
  proof (cases "drop_bit 7 cur = 0")
    case True
    have "varint_step 0 (ucast (cur AND 127)) = cur AND 127"
      by (simp only: varint_step_def group_ucast_back) simp
    also have "\<dots> = cur" using split_low_seven[of cur] True by simp
    finally show ?thesis using True by (subst encodeInt_groups_unfold) simp
  next
    case False
    have ih: "foldr (\<lambda>g acc. varint_step acc g) (encodeInt_groups (drop_bit 7 cur) []) 0
                = drop_bit 7 cur"
      by (rule less.hyps[OF drop_bit7_less[OF False]])
    have "varint_step (drop_bit 7 cur) (ucast (cur AND 127)) = cur"
      by (simp only: varint_step_def group_ucast_back split_low_seven)
    with ih False show ?thesis by (subst encodeInt_groups_unfold) simp
  qed
qed

lemma groups_low: "g \<in> set (encodeInt_groups cur []) \<Longrightarrow> g AND 128 = 0"
proof (induction "unat cur" arbitrary: cur rule: less_induct)
  case less
  show ?case
  proof (cases "drop_bit 7 cur = 0")
    case True
    with less.prems show ?thesis
      by (subst (asm) encodeInt_groups_unfold) (simp add: group_high_bit_clear)
  next
    case False
    with less.prems less.hyps[OF drop_bit7_less[OF False]] show ?thesis
      by (subst (asm) encodeInt_groups_unfold) (auto simp: group_high_bit_clear)
  qed
qed

lemma encodeInt_emit_eq:
  "i < length bs \<Longrightarrow>
     encodeInt_emit bs i = map (\<lambda>b. b OR 128) (rev (take i (tl bs))) @ [bs ! 0]"
proof (induction i)
  case 0
  then show ?case by simp
next
  case (Suc i)
  then have "take (Suc i) (tl bs) = take i (tl bs) @ [bs ! Suc i]"
    by (simp add: take_Suc_conv_app_nth nth_tl)
  with Suc show ?case by simp
qed

lemma encodeInt_eq:
  "encodeInt v = map (\<lambda>b. b OR 128) (rev (tl (encodeInt_groups v []))) @ [hd (encodeInt_groups v [])]"
proof -
  let ?g = "encodeInt_groups v []"
  have ne: "?g \<noteq> []" by (rule encodeInt_groups_nonempty)
  then have "length ?g - 1 < length ?g" by (cases ?g) simp_all
  from encodeInt_emit_eq[OF this] ne show ?thesis
    by (simp add: encodeInt_def Let_def hd_conv_nth)
qed

lemma decodeInt_loop_run:
  "g0 AND 128 = 0 \<Longrightarrow> k + length hs < 8 \<Longrightarrow>
   decodeInt_loop res k (map (\<lambda>b. b OR 128) hs @ g0 # r)
     = Inr (foldl varint_step res (hs @ [g0]), r)"
proof (induction hs arbitrary: res k)
  case Nil
  then show ?case by (simp add: Let_def varint_step_def)
next
  case (Cons h hs)
  have "decodeInt_loop res k (map (\<lambda>b. b OR 128) (h # hs) @ g0 # r)
      = decodeInt_loop (varint_step res h) (k + 1) (map (\<lambda>b. b OR 128) hs @ g0 # r)"
    using Cons.prems by (simp add: Let_def varint_step_def continuation_bit_set continuation_bit_payload)
  also have "\<dots> = Inr (foldl varint_step (varint_step res h) (hs @ [g0]), r)"
    using Cons.prems by (intro Cons.IH) simp_all
  finally show ?case by simp
qed

lemma decodeInt_encodeInt:
  assumes "v < 2 ^ 56"
  shows "decodeInt (encodeInt v @ r) = Inr (v, r)"
proof -
  let ?g = "encodeInt_groups v []"
  have ne: "?g \<noteq> []" by (rule encodeInt_groups_nonempty)
  have len: "length ?g \<le> 8"
    using assms encodeInt_groups_length[of v 8] by simp
  have low: "hd ?g AND 128 = 0" using ne by (intro groups_low[of _ v]) simp
  have "decodeInt (encodeInt v @ r)
      = decodeInt_loop 0 0 (map (\<lambda>b. b OR 128) (rev (tl ?g)) @ hd ?g # r)"
    by (simp add: decodeInt_def encodeInt_eq)
  also have "\<dots> = Inr (foldl varint_step 0 (rev (tl ?g) @ [hd ?g]), r)"
    using len ne by (intro decodeInt_loop_run low) (cases ?g; simp)
  also have "rev (tl ?g) @ [hd ?g] = rev ?g" using ne by (cases ?g) simp_all
  also have "foldl varint_step 0 (rev ?g) = v"
    using groups_value[of v] by (simp add: foldl_conv_foldr)
  finally show ?thesis .
qed

lemma encodeInt_zero: "encodeInt 0 = [0]"
  by (simp add: encodeInt_def encodeInt_groups.simps[of 0 "[]"])

lemma decodeInt_loop_stops:
  "decodeInt_loop res k r = Inr (v, r') \<Longrightarrow> k < 8 \<Longrightarrow>
   \<exists>n. 1 \<le> n \<and> k + n \<le> 8 \<and> n \<le> length r \<and> r' = drop n r
     \<and> v = foldl varint_step res (take n r)
     \<and> (\<forall>i<n - 1. r ! i AND 128 \<noteq> 0)
     \<and> (r ! (n - 1) AND 128 = 0 \<or> k + n = 8)"
proof (induction r arbitrary: res k)
  case Nil
  then show ?case by simp
next
  case (Cons a r)
  show ?case
  proof (cases "a AND 128 = 0 \<or> k + 1 \<ge> 8")
    case True
    with Cons.prems have "v = varint_step res a" "r' = r"
      by (auto simp: Let_def varint_step_def)
    moreover have "a AND 128 = 0 \<or> k + 1 = 8" using True Cons.prems by auto
    ultimately show ?thesis using Cons.prems by (intro exI[of _ 1]) auto
  next
    case False
    with Cons.prems have rec: "decodeInt_loop (varint_step res a) (k + 1) r = Inr (v, r')"
      by (simp add: Let_def varint_step_def)
    from False have k: "k + 1 < 8" by simp
    from Cons.IH[OF rec k] obtain n where n: "1 \<le> n" "k + 1 + n \<le> 8" "n \<le> length r"
      "r' = drop n r" "v = foldl varint_step (varint_step res a) (take n r)"
      "\<forall>i<n - 1. r ! i AND 128 \<noteq> 0" "r ! (n - 1) AND 128 = 0 \<or> k + 1 + n = 8"
      by blast
    have "\<forall>i<Suc n - 1. (a # r) ! i AND 128 \<noteq> 0"
    proof (intro allI impI)
      fix i assume "i < Suc n - 1"
      then show "(a # r) ! i AND 128 \<noteq> 0"
        using False n(1,6) by (cases i) auto
    qed
    moreover have "(a # r) ! (Suc n - 1) AND 128 = 0 \<or> k + Suc n = 8"
      using n(1,7) by (cases n) auto
    ultimately show ?thesis using n by (intro exI[of _ "Suc n"]) auto
  qed
qed

lemma foldl_varint_step_less:
  "res < 2 ^ (7 * m) \<Longrightarrow> m + length bs \<le> 8 \<Longrightarrow>
     foldl varint_step res bs < 2 ^ (7 * (m + length bs))"
proof (induction bs arbitrary: res m)
  case Nil
  then show ?case by simp
next
  case (Cons b bs)
  have "varint_step res b < 2 ^ (7 * m + 7)"
    unfolding varint_step_def using Cons.prems by (intro varint_step_less) simp_all
  then have "varint_step res b < 2 ^ (7 * Suc m)" by (simp add: add.commute)
  then have "foldl varint_step (varint_step res b) bs < 2 ^ (7 * (Suc m + length bs))"
    using Cons.prems by (intro Cons.IH) simp_all
  then show ?case by simp
qed

lemma less_2p_mono:
  assumes "(w :: 64 word) < 2 ^ a" "a \<le> b" "b < 64"
  shows "w < 2 ^ b"
proof -
  have "\<forall>i. bit w i \<longrightarrow> i < a" using assms less_2p_bits[of a w] by simp
  then have "\<forall>i. bit w i \<longrightarrow> i < b" using assms(2) by (meson less_le_trans)
  then show ?thesis using assms(3) less_2p_bits[of b w] by simp
qed

lemma decodeInt_loop_returns:
  "1 \<le> n \<Longrightarrow> k + n \<le> 8 \<Longrightarrow> n \<le> length r \<Longrightarrow> (\<forall>i<n - 1. r ! i AND 128 \<noteq> 0) \<Longrightarrow>
   (r ! (n - 1) AND 128 = 0 \<or> k + n = 8) \<Longrightarrow>
   decodeInt_loop res k r = Inr (foldl varint_step res (take n r), drop n r)"
proof (induction r arbitrary: res k n)
  case Nil
  then show ?case by simp
next
  case (Cons a r)
  show ?case
  proof (cases "n = 1")
    case True
    with Cons.prems have "a AND 128 = 0 \<or> k + 1 = 8" by simp
    with True show ?thesis by (auto simp: Let_def varint_step_def)
  next
    case False
    with Cons.prems obtain m where m: "n = Suc m" "1 \<le> m" by (cases n) auto
    from Cons.prems(4) m have a: "a AND 128 \<noteq> 0" by (auto dest: spec[of _ 0])
    from Cons.prems(2) m have k: "k + 1 < 8" by simp
    have hi: "\<forall>i<m - 1. r ! i AND 128 \<noteq> 0"
    proof (intro allI impI)
      fix i assume "i < m - 1"
      then have "Suc i < n - 1" using m by simp
      with Cons.prems(4) have "(a # r) ! Suc i AND 128 \<noteq> 0" by blast
      then show "r ! i AND 128 \<noteq> 0" by simp
    qed
    have lst: "r ! (m - 1) AND 128 = 0 \<or> k + 1 + m = 8"
      using Cons.prems(5) m by (cases m) auto
    have "decodeInt_loop (varint_step res a) (k + 1) r
        = Inr (foldl varint_step (varint_step res a) (take m r), drop m r)"
      using m Cons.prems(2,3) hi lst by (intro Cons.IH) simp_all
    moreover have "decodeInt_loop res k (a # r) = decodeInt_loop (varint_step res a) (k + 1) r"
      using a k by (simp add: Let_def varint_step_def)
    ultimately show ?thesis using m by simp
  qed
qed

lemma decodeInt_loop_Inl_iff:
  "k < 8 \<Longrightarrow>
   (decodeInt_loop res k r = Inl e)
     = (e = EOF \<and> k + length r < 8 \<and> (\<forall>b \<in> set r. b AND 128 \<noteq> 0))"
proof (induction r arbitrary: res k)
  case Nil
  then show ?case by auto
next
  case (Cons a r)
  show ?case
  proof (cases "a AND 128 = 0 \<or> k + 1 \<ge> 8")
    case True
    then have "decodeInt_loop res k (a # r) = Inr (varint_step res a, r)"
      by (auto simp: Let_def varint_step_def)
    with True show ?thesis by auto
  next
    case False
    then have k: "k + 1 < 8" and a: "a AND 128 \<noteq> 0" by simp_all
    have "decodeInt_loop res k (a # r) = decodeInt_loop (varint_step res a) (k + 1) r"
      using False by (simp add: Let_def varint_step_def)
    with Cons.IH[OF k, of "varint_step res a"] a show ?thesis by auto
  qed
qed

lemma varint_step_eq: "varint_step = (\<lambda>res byt. push_bit 7 res OR ucast (byt AND 127))"
  by (intro ext) (simp add: varint_step_def)

text \<open>
  Claim C3. \<^verbatim>\<open>decodeInt\<close> reads the stream \<open>r\<close> one byte at a time, accumulating
  \<^verbatim>\<open>res = res<<7 | (byt & 0x7F)\<close> from 0, and stops exactly at the first byte whose
  continuation bit is clear or at the eighth byte, whichever comes first. Three facts say
  so, for every stream.
  \<^item> When it returns a value it has read some \<open>n\<close> bytes with \<open>1 \<le> n \<le> 8\<close>; the value is
    the accumulation over exactly those bytes; every byte before the last has its
    continuation bit set, and the last one either has it clear or is the eighth; and the
    value is below \<open>2^56\<close>.
  \<^item> It does return: whenever the first \<open>n\<close> bytes of the stream are such (\<open>n - 1\<close> bytes
    with the bit set, then a byte with the bit clear, or eight bytes of which the first
    seven have the bit set, whatever the eighth is), the result is the accumulation over
    them, and the rest of the stream is left unread.
  \<^item> It fails only with \<^verbatim>\<open>io.EOF\<close>, and exactly when the stream ends before either stop:
    fewer than 8 bytes, all with the continuation bit set.
\<close>

theorem decodeInt_stops_below_2p56:
  "(decodeInt r = Inr (v, r') \<longrightarrow>
      (\<exists>n. 1 \<le> n \<and> n \<le> 8 \<and> n \<le> length r \<and> r' = drop n r
         \<and> v = foldl (\<lambda>res byt. push_bit 7 res OR ucast (byt AND 127)) 0 (take n r)
         \<and> (\<forall>i<n - 1. r ! i AND 128 \<noteq> 0)
         \<and> (r ! (n - 1) AND 128 = 0 \<or> n = 8)
         \<and> v < 2 ^ 56))
   \<and> (\<forall>n. 1 \<le> n \<and> n \<le> 8 \<and> n \<le> length r \<and> (\<forall>i<n - 1. r ! i AND 128 \<noteq> 0)
          \<and> (r ! (n - 1) AND 128 = 0 \<or> n = 8)
        \<longrightarrow> decodeInt r
              = Inr (foldl (\<lambda>res byt. push_bit 7 res OR ucast (byt AND 127)) 0 (take n r),
                     drop n r))
   \<and> ((decodeInt r = Inl e) = (e = EOF \<and> length r < 8 \<and> (\<forall>b \<in> set r. b AND 128 \<noteq> 0)))"
proof (intro conjI impI allI)
  assume "decodeInt r = Inr (v, r')"
  then have "decodeInt_loop 0 0 r = Inr (v, r')" by (simp add: decodeInt_def)
  from decodeInt_loop_stops[OF this] obtain n where n: "1 \<le> n" "n \<le> 8" "n \<le> length r"
    "r' = drop n r" "v = foldl varint_step 0 (take n r)"
    "\<forall>i<n - 1. r ! i AND 128 \<noteq> 0" "r ! (n - 1) AND 128 = 0 \<or> n = 8"
    by auto
  have "foldl varint_step 0 (take n r) < 2 ^ (7 * (0 + length (take n r)))"
    using n by (intro foldl_varint_step_less) simp_all
  then have "v < 2 ^ (7 * n)" using n by (simp add: min_absorb2)
  then have "v < 2 ^ 56" using n(2) less_2p_mono[of v "7 * n" 56] by simp
  then show "\<exists>n. 1 \<le> n \<and> n \<le> 8 \<and> n \<le> length r \<and> r' = drop n r
         \<and> v = foldl (\<lambda>res byt. push_bit 7 res OR ucast (byt AND 127)) 0 (take n r)
         \<and> (\<forall>i<n - 1. r ! i AND 128 \<noteq> 0)
         \<and> (r ! (n - 1) AND 128 = 0 \<or> n = 8)
         \<and> v < 2 ^ 56"
    using n unfolding varint_step_eq by (intro exI[of _ n]) simp
next
  fix n
  assume a: "1 \<le> n \<and> n \<le> 8 \<and> n \<le> length r \<and> (\<forall>i<n - 1. r ! i AND 128 \<noteq> 0)
          \<and> (r ! (n - 1) AND 128 = 0 \<or> n = 8)"
  then have "decodeInt_loop 0 0 r = Inr (foldl varint_step 0 (take n r), drop n r)"
    by (intro decodeInt_loop_returns) simp_all
  then show "decodeInt r
      = Inr (foldl (\<lambda>res byt. push_bit 7 res OR ucast (byt AND 127)) 0 (take n r), drop n r)"
    unfolding varint_step_eq by (simp add: decodeInt_def)
next
  show "(decodeInt r = Inl e) = (e = EOF \<and> length r < 8 \<and> (\<forall>b \<in> set r. b AND 128 \<noteq> 0))"
    using decodeInt_loop_Inl_iff[of 0 0 r e] by (simp add: decodeInt_def)
qed

text \<open>
  Three streams: one that stops at a clear continuation bit after 2 bytes (the value 300),
  one whose first eight bytes all have the bit set, so that the loop stops at the cap with
  the value \<open>2^56 - 1\<close> and leaves the ninth byte, and one that ends after two bytes with
  the bit set.
\<close>

theorem decodeInt_stops_below_2p56_witness:
  "decodeInt [0x82, 0x2C, 0x05] = Inr (300, [0x05]) \<and> (300 :: 64 word) < 2 ^ 56
   \<and> decodeInt [255, 255, 255, 255, 255, 255, 255, 255, 1] = Inr (2 ^ 56 - 1, [1])
   \<and> (2 ^ 56 - 1 :: 64 word) < 2 ^ 56
   \<and> decodeInt [0x82, 0xAC] = Inl EOF"
proof -
  have a: "decodeInt [0x82, 0x2C, 0x05] = Inr (300, [0x05])"
    using decodeInt_stops_below_2p56[of "[0x82, 0x2C, 0x05]", THEN conjunct2, THEN conjunct1,
        rule_format, of 2]
    by (simp add: nth_Cons')
  have a': "(300 :: 64 word) < 2 ^ 56"
    using decodeInt_stops_below_2p56[of "[0x82, 0x2C, 0x05]" 300 "[0x05]", THEN conjunct1] a
    by blast
  have b: "decodeInt [255, 255, 255, 255, 255, 255, 255, 255, 1] = Inr (2 ^ 56 - 1, [1])"
    using decodeInt_stops_below_2p56[of "[255, 255, 255, 255, 255, 255, 255, 255, 1]",
        THEN conjunct2, THEN conjunct1, rule_format, of 8]
    by (simp add: nth_Cons')
  have b': "(2 ^ 56 - 1 :: 64 word) < 2 ^ 56"
    using decodeInt_stops_below_2p56[of "[255, 255, 255, 255, 255, 255, 255, 255, 1]"
        "2 ^ 56 - 1" "[1]", THEN conjunct1] b
    by blast
  have c: "decodeInt [0x82, 0xAC] = Inl EOF"
    using decodeInt_stops_below_2p56[of "[0x82, 0xAC]" _ _ EOF, THEN conjunct2, THEN conjunct2]
    by simp
  from a a' b b' c show ?thesis by blast
qed

text \<open>
  Claim C2. For every \<open>v\<close> below \<open>2^56\<close>, \<^verbatim>\<open>decodeInt\<close> applied to the bytes that
  \<^verbatim>\<open>encodeInt(v)\<close> writes (followed by any further stream \<open>r\<close>) returns \<open>v\<close> and leaves
  \<open>r\<close>; and \<^verbatim>\<open>encodeInt(0)\<close> writes the single byte zero.
\<close>

theorem varint_roundtrip:
  "(v < 2 ^ 56 \<longrightarrow> decodeInt (encodeInt v @ r) = Inr (v, r)) \<and> encodeInt 0 = [0]"
  using decodeInt_encodeInt[of v r] encodeInt_zero by simp

lemma encodeInt_300: "encodeInt 300 = [0x82, 0x2C]"
  by (simp add: encodeInt_def encodeInt_groups.simps Let_def)

theorem varint_roundtrip_witness:
  "(300 :: 64 word) < 2 ^ 56 \<and> encodeInt 300 = [0x82, 0x2C]
   \<and> decodeInt ([0x82, 0x2C] @ [7]) = Inr (300, [7]) \<and> encodeInt 0 = [0]"
  using varint_roundtrip[of 300 "[7]"] encodeInt_300 by simp

section \<open>Facts about the big-endian layout\<close>

lemma be_nat_snoc: "be_nat (bs @ [b]) = be_nat bs * 256 + unat b"
  by (simp add: be_nat_def)

lemma be_nat_less: "be_nat bs < 256 ^ length bs"
proof (induction bs rule: rev_induct)
  case Nil
  then show ?case by (simp add: be_nat_def)
next
  case (snoc b bs)
  have "unat b < 256" using unsigned_less[of b] by simp
  with snoc have "be_nat bs * 256 + unat b < 256 ^ length bs * 256"
    by linarith
  then show ?case by (simp add: be_nat_snoc)
qed

lemma length_be_bytes [simp]: "length (be_bytes n v) = n"
  by (induction n arbitrary: v) simp_all

lemma length_word_be [simp]: "length (word_be n w) = n"
  by (simp add: word_be_def)

lemma be_bytes_be_nat: "length bs = n \<Longrightarrow> be_bytes n (be_nat bs) = bs"
proof (induction bs arbitrary: n rule: rev_induct)
  case Nil
  then show ?case by simp
next
  case (snoc b bs)
  then obtain m where n: "n = Suc m" "length bs = m" by (cases n) auto
  have ub: "unat b < 256" using unsigned_less[of b] by simp
  have "(be_nat bs * 256 + unat b) div 256 = be_nat bs" using ub by simp
  moreover have "(be_nat bs * 256 + unat b) mod 256 = unat b" using ub by simp
  ultimately show ?case using snoc.IH[OF n(2)] n by (simp add: be_nat_snoc)
qed

lemma word_be_be_word:
  assumes "length bs = n" "(256 :: nat) ^ n \<le> 2 ^ LENGTH('a)"
  shows "word_be n (be_word bs :: 'a::len word) = bs"
proof -
  have "be_nat bs < 2 ^ LENGTH('a)"
    using be_nat_less[of bs] assms by simp
  then have "unat (of_nat (be_nat bs) :: 'a word) = be_nat bs"
    by (simp add: unsigned_of_nat take_bit_nat_eq_self)
  then show ?thesis using assms(1) by (simp add: word_be_def be_word_def be_bytes_be_nat)
qed

lemma word_be_be_word_2 [simp]: "length bs = 2 \<Longrightarrow> word_be 2 (be_word bs :: 16 word) = bs"
  by (rule word_be_be_word) simp_all

lemma word_be_be_word_4 [simp]: "length bs = 4 \<Longrightarrow> word_be 4 (be_word bs :: 32 word) = bs"
  by (rule word_be_be_word) simp_all

lemma word_be_be_word_8 [simp]: "length bs = 8 \<Longrightarrow> word_be 8 (be_word bs :: 64 word) = bs"
  by (rule word_be_be_word) simp_all

lemma put_get_FourByteString [simp]:
  "length bs = 4 \<Longrightarrow> put_FourByteString (get_FourByteString bs) = bs"
  by (auto simp: get_FourByteString_def length_Suc_conv numeral_eq_Suc)

lemma get_put_FourByteString [simp]: "get_FourByteString (put_FourByteString t) = t"
  by (cases t) (simp add: get_FourByteString_def)

lemma length_put_FourByteString [simp]: "length (put_FourByteString t) = 4"
  by (cases t) simp

lemma length_seg [simp]: "off + n \<le> length bs \<Longrightarrow> length (seg off n bs) = n"
  by (simp add: seg_def)

lemma seg_append: "seg a n bs @ seg (a + n) m bs = seg a (n + m) bs"
  by (simp add: seg_def take_add) (simp add: add.commute)

lemma seg_all: "length bs = n \<Longrightarrow> seg 0 n bs = bs"
  by (simp add: seg_def)

lemma seg_join [simp]:
  "b = a + n \<Longrightarrow> seg a n bs @ seg b m bs @ rest = seg a (n + m) bs @ rest"
  using seg_append[of a n bs m] by simp

lemma seg_join_last [simp]: "b = a + n \<Longrightarrow> seg a n bs @ seg b m bs = seg a (n + m) bs"
  using seg_append[of a n bs m] by simp


lemma put_get_ChunkHeader: "length bs = 12 \<Longrightarrow> put_ChunkHeader (get_ChunkHeader bs) = bs"
  by (simp add: put_ChunkHeader_def get_ChunkHeader_def seg_all)





lemma length_put_ChannelDescription [simp]: "length (put_ChannelDescription d) = 20"
  by (cases "Coordinates d") (simp add: put_ChannelDescription_def)





lemma length_put_FileHeader [simp]: "length (put_FileHeader h) = 8"
  by (simp add: put_FileHeader_def)

lemma length_put_ChunkHeader [simp]: "length (put_ChunkHeader h) = 12"
  by (simp add: put_ChunkHeader_def)

lemma ReadFull_append:
  "length bs = n \<Longrightarrow> ReadFull n (bs @ r) = Inr (bs, r)"
  by (auto simp: ReadFull_def)

lemma binary_Read_append:
  "length bs = n \<Longrightarrow> binary_Read n g (bs @ r) = Inr (g bs, r)"
  by (simp add: binary_Read_def ReadFull_append)

lemma of_nat_low_byte: "(of_nat (unat (w :: 16 word) mod 256) :: byte) = ucast w"
  by (simp add: word_unat_eq_iff unsigned_of_nat unsigned_ucast_eq take_bit_eq_mod)

lemma word_be_2_bytes: "word_be 2 (w :: 16 word) = [ucast (drop_bit 8 w), ucast w]"
proof -
  have lo: "(of_nat (unat w mod 256) :: byte) = ucast w"
    by (rule of_nat_low_byte)
  have "unat (drop_bit 8 w) = unat w div 256"
    by (subst unat_drop_bit_eq) (simp add: drop_bit_eq_div)
  then have hi: "(of_nat (unat w div 256 mod 256) :: byte) = ucast (drop_bit 8 w)"
    using of_nat_low_byte[of "drop_bit 8 w"] by simp
  show ?thesis using lo hi by (simp add: word_be_def numeral_2_eq_2)
qed

section \<open>Facts about the tags\<close>

lemma caff_bytes: "put_FourByteString (stringToChunkType ''caff'') = [99, 97, 102, 102]"
  by (simp add: stringToChunkType_def)

lemma ChunkType_values:
  "ChunkTypeAudioDescription = (100, 101, 115, 99)"
  "ChunkTypeChannelLayout = (99, 104, 97, 110)"
  "ChunkTypeInformation = (105, 110, 102, 111)"
  "ChunkTypeAudioData = (100, 97, 116, 97)"
  "ChunkTypePacketTable = (112, 97, 107, 116)"
  "ChunkTypeMidi = (109, 105, 100, 105)"
  by (simp_all add: stringToChunkType_def ChunkTypeAudioDescription_def
      ChunkTypeChannelLayout_def ChunkTypeInformation_def ChunkTypeAudioData_def
      ChunkTypePacketTable_def ChunkTypeMidi_def)

section \<open>The file header\<close>

lemma FileHeader_Decode_short:
  "length B < 8 \<Longrightarrow> FileHeader_Decode B = Inl (if B = [] then EOF else ErrUnexpectedEOF)"
  by (simp add: FileHeader_Decode_def binary_Read_def ReadFull_def)

lemma FileType_get_FileHeader:
  "8 \<le> length B \<Longrightarrow> put_FourByteString (FileType (get_FileHeader (take 8 B))) = take 4 B"
proof -
  assume l: "8 \<le> length B"
  have "seg 0 4 (take 8 B) = take 4 B" by (simp add: seg_def min_def)
  moreover have "length (take 4 B) = 4" using l by simp
  ultimately show ?thesis by (simp add: get_FileHeader_def)
qed

lemma FileHeader_Decode_long:
  assumes "8 \<le> length B"
  shows "FileHeader_Decode B =
     (if take 4 B \<noteq> put_FourByteString (stringToChunkType ''caff'') then Inl ErrInvalidCaffHeader
      else Inr (get_FileHeader (take 8 B), drop 8 B))"
proof -
  have rd: "binary_Read 8 get_FileHeader B = Inr (get_FileHeader (take 8 B), drop 8 B)"
    using assms by (auto simp: binary_Read_def ReadFull_def)
  have "(FileType (get_FileHeader (take 8 B)) \<noteq> stringToChunkType ''caff'')
      = (take 4 B \<noteq> put_FourByteString (stringToChunkType ''caff''))"
    using FileType_get_FileHeader[OF assms]
    by (metis get_put_FourByteString)
  then show ?thesis by (simp add: FileHeader_Decode_def rd)
qed

text \<open>
  Claim C7, as the code has it. \<^verbatim>\<open>FileHeader.Decode\<close> reads all 8 bytes of the header
  before it looks at the tag. So a stream of at least 8 bytes whose first 4 bytes are not
  \<^verbatim>\<open>caff\<close> fails with the invalid-header error whatever follows, while a stream of fewer
  than 8 bytes fails with \<^verbatim>\<open>io.EOF\<close> (empty) or \<^verbatim>\<open>io.ErrUnexpectedEOF\<close>, its tag never
  examined.
\<close>

theorem File_Decode_magic:
  "(8 \<le> length B \<and> take 4 B \<noteq> put_FourByteString (stringToChunkType ''caff'')
      \<longrightarrow> File_Decode lim cf B = Inl ErrInvalidCaffHeader)
   \<and> (length B < 8 \<longrightarrow> File_Decode lim cf B = Inl (if B = [] then EOF else ErrUnexpectedEOF))"
  by (simp add: File_Decode_def FileHeader_Decode_long FileHeader_Decode_short)

theorem File_Decode_magic_witness:
  "File_Decode 1024 File_zero [122, 122, 122, 122, 0, 1, 0, 0, 100, 101] = Inl ErrInvalidCaffHeader
   \<and> File_Decode 1024 File_zero [99, 97, 102] = Inl ErrUnexpectedEOF
   \<and> File_Decode 1024 File_zero [] = Inl EOF"
  using File_Decode_magic[of "[122, 122, 122, 122, 0, 1, 0, 0, 100, 101]" 1024 File_zero]
    File_Decode_magic[of "[99, 97, 102]" 1024 File_zero]
    File_Decode_magic[of "[]" 1024 File_zero]
  by (simp add: caff_bytes)

text \<open>
  The claim as stated, for every stream whose first 4 bytes are not \<^verbatim>\<open>caff\<close> however
  many bytes follow, fails on the 4-byte stream \<^verbatim>\<open>zzzz\<close>: the error is
  \<^verbatim>\<open>io.ErrUnexpectedEOF\<close>.
\<close>

theorem File_Decode_magic_counterexample:
  "take 4 [122, 122, 122, 122 :: byte] \<noteq> put_FourByteString (stringToChunkType ''caff'')
   \<and> File_Decode 1024 File_zero [122, 122, 122, 122] = Inl ErrUnexpectedEOF
   \<and> File_Decode 1024 File_zero [122, 122, 122, 122] \<noteq> Inl ErrInvalidCaffHeader"
  by (simp add: caff_bytes File_Decode_def FileHeader_Decode_short)

text \<open>
  Claim C10. \<^verbatim>\<open>FileHeader.Encode\<close> validates nothing: for every header it succeeds and
  writes the 4 bytes of \<^verbatim>\<open>FileType\<close>, then the version and the flags, each high byte
  first. When \<^verbatim>\<open>FileType\<close> is not \<^verbatim>\<open>caff\<close>, the bytes written, followed by anything, are
  rejected by \<^verbatim>\<open>FileHeader.Decode\<close> and by \<^verbatim>\<open>File.Decode\<close> with the invalid-header error.
\<close>

theorem FileHeader_Encode_unchecked:
  "FileHeader_Encode h =
     Inr (put_FourByteString (FileType h)
          @ [ucast (drop_bit 8 (FileVersion h)), ucast (FileVersion h)]
          @ [ucast (drop_bit 8 (FileFlags h)), ucast (FileFlags h)])
   \<and> (\<forall>out. FileHeader_Encode h = Inr out \<and> FileType h \<noteq> stringToChunkType ''caff''
         \<longrightarrow> FileHeader_Decode (out @ r) = Inl ErrInvalidCaffHeader
           \<and> File_Decode lim cf (out @ r) = Inl ErrInvalidCaffHeader)"
proof -
  have enc: "FileHeader_Encode h =
     Inr (put_FourByteString (FileType h)
          @ [ucast (drop_bit 8 (FileVersion h)), ucast (FileVersion h)]
          @ [ucast (drop_bit 8 (FileFlags h)), ucast (FileFlags h)])"
    by (simp add: FileHeader_Encode_def put_FileHeader_def word_be_2_bytes)
  have "FileHeader_Decode (put_FileHeader h @ r) = Inl ErrInvalidCaffHeader"
    if "FileType h \<noteq> stringToChunkType ''caff''"
  proof -
    have "take 4 (put_FileHeader h @ r) = put_FourByteString (FileType h)"
      by (simp add: put_FileHeader_def)
    moreover have "put_FourByteString (FileType h) \<noteq> put_FourByteString (stringToChunkType ''caff'')"
      using that by (metis get_put_FourByteString)
    ultimately show ?thesis by (simp add: FileHeader_Decode_long)
  qed
  then show ?thesis using enc by (auto simp: FileHeader_Encode_def File_Decode_def)
qed

theorem FileHeader_Encode_unchecked_witness:
  "FileHeader_Encode \<lparr>FileType = stringToChunkType ''zzzz'', FileVersion = 258, FileFlags = 3\<rparr>
     = Inr [122, 122, 122, 122, 1, 2, 0, 3]
   \<and> stringToChunkType ''zzzz'' \<noteq> stringToChunkType ''caff''
   \<and> FileHeader_Decode ([122, 122, 122, 122, 1, 2, 0, 3] @ [7]) = Inl ErrInvalidCaffHeader
   \<and> File_Decode 1024 File_zero ([122, 122, 122, 122, 1, 2, 0, 3] @ [7]) = Inl ErrInvalidCaffHeader"
proof -
  let ?h = "\<lparr>FileType = stringToChunkType ''zzzz'', FileVersion = 258, FileFlags = 3\<rparr>"
  have e: "FileHeader_Encode ?h = Inr [122, 122, 122, 122, 1, 2, 0, 3]"
    using FileHeader_Encode_unchecked[of ?h "[7]" 1024 File_zero]
    by (simp add: stringToChunkType_def drop_bit_eq_div)
  have n: "stringToChunkType ''zzzz'' \<noteq> stringToChunkType ''caff''"
    by (simp add: stringToChunkType_def)
  from FileHeader_Encode_unchecked[of ?h "[7]" 1024 File_zero] e n show ?thesis by simp
qed

section \<open>Facts about the information strings\<close>




lemma readString_loop_Inl: "readString_loop bs r = Inl e \<Longrightarrow> e = EOF"
proof (induction r arbitrary: bs)
  case Nil
  then show ?case by simp
next
  case (Cons a r)
  show ?case
  proof (cases "a = 0")
    case True
    with Cons.prems show ?thesis by (simp add: Let_def)
  next
    case False
    with Cons.prems have "readString_loop (bs @ [a]) r = Inl e" by (simp add: Let_def)
    then show ?thesis by (rule Cons.IH)
  qed
qed

lemma readString_Inl: "readString r = Inl e \<Longrightarrow> e = EOF"
  unfolding readString_def by (rule readString_loop_Inl)




section \<open>Facts about the audio data chunk\<close>

lemma sint_minus_4:
  assumes "4 \<le> sint (w :: 64 word)"
  shows "sint (w - 4) = sint w - 4"
proof -
  have "sint (w - 4) = signed_take_bit 63 (sint w - 4)"
    by (simp add: sint_word_diff)
  also have "\<dots> = sint w - 4"
    by (rule signed_take_bit_int_eq_self) (use assms sint_lt[of w] in simp_all)
  finally show ?thesis .
qed

lemma Data_decode_sentinel:
  "4 \<le> length r \<Longrightarrow> ChunkSize h = - 1 \<Longrightarrow>
     Data_decode r h = Inr (\<lparr>EditCount = be_word (take 4 r), Data = drop 4 r\<rparr>, [])"
  by (auto simp: Data_decode_def binary_Read_def ReadFull_def ReadAll_def)

lemma Data_decode_sized:
  assumes "4 \<le> length r" "4 \<le> sint (ChunkSize h)"
  shows "Data_decode r h =
     Inr (\<lparr>EditCount = be_word (take 4 r),
           Data = take (nat (sint (ChunkSize h) - 4)) (drop 4 r)\<rparr>,
          drop (nat (sint (ChunkSize h) - 4)) (drop 4 r))"
proof -
  have "ChunkSize h \<noteq> - 1" using assms(2) by auto
  moreover have "sint (ChunkSize h - 4) = sint (ChunkSize h) - 4"
    using assms(2) by (rule sint_minus_4)
  ultimately show ?thesis using assms(1)
    by (auto simp: Data_decode_def binary_Read_def ReadFull_def ReadAll_LimitReader_def Let_def)
qed

text \<open>
  Claim C6, as the code has it. Once the 4-byte edit count has been read: with the
  sentinel size \<open>-1\<close> the blob is every remaining byte of the stream; with a declared
  size \<open>S \<ge> 4\<close> the blob is the next \<open>S - 4\<close> bytes when the stream holds that many,
  and all the bytes that are left when it holds fewer. Decoding succeeds in both cases.
\<close>

theorem Data_decode_sizing:
  assumes "4 \<le> length r"
  shows "(ChunkSize h = - 1 \<longrightarrow>
            Data_decode r h = Inr (\<lparr>EditCount = be_word (take 4 r), Data = drop 4 r\<rparr>, []))
     \<and> (4 \<le> sint (ChunkSize h) \<longrightarrow>
          (\<exists>blob rest. Data_decode r h = Inr (\<lparr>EditCount = be_word (take 4 r), Data = blob\<rparr>, rest)
             \<and> drop 4 r = blob @ rest
             \<and> int (length blob) = min (sint (ChunkSize h) - 4) (int (length r) - 4)))"
proof (intro conjI impI)
  assume "ChunkSize h = - 1"
  with assms show "Data_decode r h = Inr (\<lparr>EditCount = be_word (take 4 r), Data = drop 4 r\<rparr>, [])"
    by (rule Data_decode_sentinel)
next
  assume s: "4 \<le> sint (ChunkSize h)"
  let ?n = "nat (sint (ChunkSize h) - 4)"
  have "length (take ?n (drop 4 r)) = min ?n (length r - 4)" by simp
  moreover have "int (min ?n (length r - 4)) = min (sint (ChunkSize h) - 4) (int (length r) - 4)"
    using assms s by linarith
  ultimately have len: "int (length (take ?n (drop 4 r)))
      = min (sint (ChunkSize h) - 4) (int (length r) - 4)"
    by (simp only:)
  show "\<exists>blob rest. Data_decode r h = Inr (\<lparr>EditCount = be_word (take 4 r), Data = blob\<rparr>, rest)
     \<and> drop 4 r = blob @ rest
     \<and> int (length blob) = min (sint (ChunkSize h) - 4) (int (length r) - 4)"
  proof (intro exI conjI)
    show "Data_decode r h = Inr (\<lparr>EditCount = be_word (take 4 r),
        Data = take ?n (drop 4 r)\<rparr>, drop ?n (drop 4 r))"
      by (rule Data_decode_sized[OF assms s])
    show "drop 4 r = take ?n (drop 4 r) @ drop ?n (drop 4 r)"
      by (simp only: append_take_drop_id)
    show "int (length (take ?n (drop 4 r))) = min (sint (ChunkSize h) - 4) (int (length r) - 4)"
      by (rule len)
  qed
qed

lemma be_word_1: "(be_word [0, 0, 0, 1] :: 32 word) = 1"
  by (simp add: be_word_def be_nat_def)

lemma Data_decode_sentinel_example:
  "Data_decode [0, 0, 0, 1, 9, 8, 7] \<lparr>ChunkType = ChunkTypeAudioData, ChunkSize = - 1\<rparr>
      = Inr (\<lparr>EditCount = 1, Data = [9, 8, 7]\<rparr>, [])"
  using Data_decode_sentinel[of "[0, 0, 0, 1, 9, 8, 7]"
      "\<lparr>ChunkType = ChunkTypeAudioData, ChunkSize = - 1\<rparr>"]
  by (simp add: be_word_1)

lemma Data_decode_sized_example:
  "Data_decode [0, 0, 0, 1, 9, 8, 7] \<lparr>ChunkType = ChunkTypeAudioData, ChunkSize = 6\<rparr>
      = Inr (\<lparr>EditCount = 1, Data = [9, 8]\<rparr>, [7])"
  using Data_decode_sized[of "[0, 0, 0, 1, 9, 8, 7]"
      "\<lparr>ChunkType = ChunkTypeAudioData, ChunkSize = 6\<rparr>"]
  by (simp add: be_word_1)

lemma Data_decode_short_example:
  "Data_decode [0, 0, 0, 1, 9, 8] \<lparr>ChunkType = ChunkTypeAudioData, ChunkSize = 10\<rparr>
      = Inr (\<lparr>EditCount = 1, Data = [9, 8]\<rparr>, [])"
  using Data_decode_sized[of "[0, 0, 0, 1, 9, 8]"
      "\<lparr>ChunkType = ChunkTypeAudioData, ChunkSize = 10\<rparr>"]
  by (simp add: be_word_1)

theorem Data_decode_sizing_witness:
  "Data_decode [0, 0, 0, 1, 9, 8, 7] \<lparr>ChunkType = ChunkTypeAudioData, ChunkSize = - 1\<rparr>
      = Inr (\<lparr>EditCount = 1, Data = [9, 8, 7]\<rparr>, [])
   \<and> Data_decode [0, 0, 0, 1, 9, 8, 7] \<lparr>ChunkType = ChunkTypeAudioData, ChunkSize = 6\<rparr>
      = Inr (\<lparr>EditCount = 1, Data = [9, 8]\<rparr>, [7])
   \<and> int (length [9, 8 :: byte]) = min (sint (6 :: 64 word) - 4) (int (length [0, 0, 0, 1, 9, 8, 7 :: byte]) - 4)"
proof -
  have l: "4 \<le> length [0, 0, 0, 1, 9, 8, 7 :: byte]" by simp
  from Data_decode_sizing[OF l, of "\<lparr>ChunkType = ChunkTypeAudioData, ChunkSize = - 1\<rparr>"]
  have a: "Data_decode [0, 0, 0, 1, 9, 8, 7] \<lparr>ChunkType = ChunkTypeAudioData, ChunkSize = - 1\<rparr>
      = Inr (\<lparr>EditCount = 1, Data = [9, 8, 7]\<rparr>, [])" by (simp add: be_word_1)
  from Data_decode_sizing[OF l, of "\<lparr>ChunkType = ChunkTypeAudioData, ChunkSize = 6\<rparr>"]
  obtain blob rest where
    b: "Data_decode [0, 0, 0, 1, 9, 8, 7] \<lparr>ChunkType = ChunkTypeAudioData, ChunkSize = 6\<rparr>
          = Inr (\<lparr>EditCount = be_word (take 4 [0, 0, 0, 1, 9, 8, 7]), Data = blob\<rparr>, rest)"
    and d: "int (length blob)
          = min (sint (6 :: 64 word) - 4) (int (length [0, 0, 0, 1, 9, 8, 7 :: byte]) - 4)"
    by auto
  from b have "blob = [9, 8]" by (simp add: Data_decode_sized_example)
  with a d show ?thesis by (simp add: Data_decode_sized_example)
qed

text \<open>
  The claim as stated fails on a stream that ends early: with declared size 10 and two
  bytes after the edit count, \<^verbatim>\<open>Data.decode\<close> succeeds with a blob of 2 bytes, not 6.
\<close>

theorem Data_decode_sizing_counterexample:
  "(4 :: int) \<le> sint (10 :: 64 word)
   \<and> Data_decode [0, 0, 0, 1, 9, 8] \<lparr>ChunkType = ChunkTypeAudioData, ChunkSize = 10\<rparr>
      = Inr (\<lparr>EditCount = 1, Data = [9, 8]\<rparr>, [])
   \<and> int (length [9, 8 :: byte]) \<noteq> sint (10 :: 64 word) - 4"
  by (simp add: Data_decode_short_example)

section \<open>Facts about the chunk framer\<close>

lemma Chunk_decode_Inl:
  "binary_Read 12 get_ChunkHeader r = Inl e \<Longrightarrow> Chunk_decode lim r = Inl e"
  by (simp add: Chunk_decode_def)

lemma Chunk_decode_desc:
  "binary_Read 12 get_ChunkHeader r = Inr (h, r1) \<Longrightarrow> ChunkType h = ChunkTypeAudioDescription \<Longrightarrow>
   Chunk_decode lim r =
     (case AudioFormat_decode r1 of
        Inl err \<Rightarrow> Inl err
      | Inr (cc, r2) \<Rightarrow> Inr (\<lparr>Chunk.Header = h, Contents = PAudioFormat cc\<rparr>, r2))"
  by (simp add: Chunk_decode_def)

lemma Chunk_decode_chan:
  "binary_Read 12 get_ChunkHeader r = Inr (h, r1) \<Longrightarrow> ChunkType h = ChunkTypeChannelLayout \<Longrightarrow>
   Chunk_decode lim r =
     (case ChannelLayout_decode r1 of
        Inl err \<Rightarrow> Inl err
      | Inr (cc, r2) \<Rightarrow> Inr (\<lparr>Chunk.Header = h, Contents = PChannelLayout cc\<rparr>, r2))"
  by (simp add: Chunk_decode_def ChunkType_values)

lemma Chunk_decode_info:
  "binary_Read 12 get_ChunkHeader r = Inr (h, r1) \<Longrightarrow> ChunkType h = ChunkTypeInformation \<Longrightarrow>
   Chunk_decode lim r =
     (case CAFStringsChunk_decode r1 of
        Inl err \<Rightarrow> Inl err
      | Inr (cc, r2) \<Rightarrow> Inr (\<lparr>Chunk.Header = h, Contents = PCAFStringsChunk cc\<rparr>, r2))"
  by (simp add: Chunk_decode_def ChunkType_values)

lemma Chunk_decode_data:
  "binary_Read 12 get_ChunkHeader r = Inr (h, r1) \<Longrightarrow> ChunkType h = ChunkTypeAudioData \<Longrightarrow>
   Chunk_decode lim r =
     (case Data_decode r1 h of
        Inl err \<Rightarrow> Inl err
      | Inr (cc, r2) \<Rightarrow> Inr (\<lparr>Chunk.Header = h, Contents = PData cc\<rparr>, r2))"
  by (simp add: Chunk_decode_def ChunkType_values)

lemma Chunk_decode_pakt:
  "binary_Read 12 get_ChunkHeader r = Inr (h, r1) \<Longrightarrow> ChunkType h = ChunkTypePacketTable \<Longrightarrow>
   Chunk_decode lim r =
     (case PacketTable_decode r1 of
        Inl err \<Rightarrow> Inl err
      | Inr (cc, r2) \<Rightarrow> Inr (\<lparr>Chunk.Header = h, Contents = PPacketTable cc\<rparr>, r2))"
  by (simp add: Chunk_decode_def ChunkType_values)

lemma Chunk_decode_midi:
  "binary_Read 12 get_ChunkHeader r = Inr (h, r1) \<Longrightarrow> ChunkType h = ChunkTypeMidi \<Longrightarrow>
   Chunk_decode lim r =
     (case make_bytes lim (sint (ChunkSize h)) of
        Inl err \<Rightarrow> Inl err
      | Inr n \<Rightarrow>
          (case binary_Read n (\<lambda>ba. ba) r1 of
             Inl err \<Rightarrow> Inl err
           | Inr (ba, r2) \<Rightarrow> Inr (\<lparr>Chunk.Header = h, Contents = VMidi ba\<rparr>, r2)))"
  by (simp add: Chunk_decode_def ChunkType_values)

lemma Chunk_decode_unknown:
  "binary_Read 12 get_ChunkHeader r = Inr (h, r1) \<Longrightarrow> unknown_tag (ChunkType h) \<Longrightarrow>
   Chunk_decode lim r =
     (case make_bytes lim (sint (ChunkSize h)) of
        Inl err \<Rightarrow> Inl err
      | Inr n \<Rightarrow>
          (case binary_Read n (\<lambda>ba. ba) r1 of
             Inl err \<Rightarrow> Inl err
           | Inr (ba, r2) \<Rightarrow> Inr (\<lparr>Chunk.Header = h, Contents = PUnknownContents ba\<rparr>, r2)))"
  by (simp add: Chunk_decode_def unknown_tag_def)

lemma Chunk_decode_Header:
  assumes "Chunk_decode lim r = Inr (c, r')"
  shows "\<exists>r1. binary_Read 12 get_ChunkHeader r = Inr (Chunk.Header c, r1)"
proof (cases "binary_Read 12 get_ChunkHeader r")
  case (Inl e)
  with assms show ?thesis by (simp add: Chunk_decode_def)
next
  case (Inr p)
  obtain h r1 where p: "p = (h, r1)" by (cases p)
  have "Chunk.Header c = h"
  proof -
    consider (desc) "ChunkType h = ChunkTypeAudioDescription"
      | (chan) "ChunkType h = ChunkTypeChannelLayout"
      | (info) "ChunkType h = ChunkTypeInformation"
      | (data) "ChunkType h = ChunkTypeAudioData"
      | (pakt) "ChunkType h = ChunkTypePacketTable"
      | (midi) "ChunkType h = ChunkTypeMidi"
      | (unknown) "unknown_tag (ChunkType h)"
      unfolding unknown_tag_def by blast
    then show ?thesis
    proof cases
      case desc
      with assms Inr p show ?thesis by (auto simp: Chunk_decode_desc split: sum.splits)
    next
      case chan
      with assms Inr p show ?thesis by (auto simp: Chunk_decode_chan split: sum.splits)
    next
      case info
      with assms Inr p show ?thesis by (auto simp: Chunk_decode_info split: sum.splits)
    next
      case data
      with assms Inr p show ?thesis by (auto simp: Chunk_decode_data split: sum.splits)
    next
      case pakt
      with assms Inr p show ?thesis by (auto simp: Chunk_decode_pakt split: sum.splits)
    next
      case midi
      with assms Inr p show ?thesis by (auto simp: Chunk_decode_midi split: sum.splits)
    next
      case unknown
      with assms Inr p show ?thesis by (auto simp: Chunk_decode_unknown split: sum.splits)
    qed
  qed
  with Inr p show ?thesis by simp
qed

lemma Chunk_Encode_unknown:
  "unknown_tag (ChunkType h) \<Longrightarrow>
   Chunk_Encode \<lparr>Chunk.Header = h, Contents = PUnknownContents blob\<rparr> = Inr (put_ChunkHeader h @ blob)"
  by (simp add: Chunk_Encode_def unknown_tag_def)

lemma make_bytes_Inr:
  "make_bytes lim n = Inr k \<Longrightarrow> 0 \<le> n \<and> n \<le> lim \<and> int k = n"
  by (auto simp: make_bytes_def split: if_splits)

lemma Chunk_decode_unknown_post:
  assumes "Chunk_decode lim r = Inr (c, r')" "unknown_tag (ChunkType (Chunk.Header c))"
  shows "\<exists>blob. Contents c = PUnknownContents blob
     \<and> int (length blob) = sint (ChunkSize (Chunk.Header c))
     \<and> Chunk_Encode c = Inr (put_ChunkHeader (Chunk.Header c) @ blob)
     \<and> r = put_ChunkHeader (Chunk.Header c) @ blob @ r'"
proof -
  let ?h = "Chunk.Header c"
  from Chunk_decode_Header[OF assms(1)] obtain r1 where
    rd: "binary_Read 12 get_ChunkHeader r = Inr (?h, r1)" by blast
  from binary_Read_Inr[OF rd] obtain hdr where
    hdr: "r = hdr @ r1" "length hdr = 12" "?h = get_ChunkHeader hdr" by blast
  from assms Chunk_decode_unknown[OF rd assms(2), of lim] obtain n blob where
    mk: "make_bytes lim (sint (ChunkSize ?h)) = Inr n"
    and rb: "binary_Read n (\<lambda>ba. ba) r1 = Inr (blob, r')"
    and c: "c = \<lparr>Chunk.Header = ?h, Contents = PUnknownContents blob\<rparr>"
    by (auto split: sum.splits)
  from binary_Read_Inr[OF rb] have bl: "r1 = blob @ r'" "length blob = n" by auto
  have ph: "put_ChunkHeader ?h = hdr" using hdr by (simp add: put_get_ChunkHeader)
  have "Chunk_Encode c = Inr (put_ChunkHeader ?h @ blob)"
    using Chunk_Encode_unknown[OF assms(2), of blob] c by simp
  moreover have "int (length blob) = sint (ChunkSize ?h)"
    using make_bytes_Inr[OF mk] bl by simp
  moreover have "Contents c = PUnknownContents blob" using c by (metis Chunk.select_convs(2))
  ultimately show ?thesis using hdr bl ph by auto
qed

lemma Chunk_decode_unknown_run:
  assumes "length hdr = 12" "unknown_tag (ChunkType (get_ChunkHeader hdr))"
    "0 \<le> sint (ChunkSize (get_ChunkHeader hdr))" "sint (ChunkSize (get_ChunkHeader hdr)) \<le> lim"
    "int (length payload) = sint (ChunkSize (get_ChunkHeader hdr))"
  shows "Chunk_decode lim (hdr @ payload @ rest)
      = Inr (\<lparr>Chunk.Header = get_ChunkHeader hdr, Contents = PUnknownContents payload\<rparr>, rest)"
proof -
  let ?h = "get_ChunkHeader hdr"
  have rd: "binary_Read 12 get_ChunkHeader (hdr @ payload @ rest) = Inr (?h, payload @ rest)"
    using assms(1) by (rule binary_Read_append)
  have mk: "make_bytes lim (sint (ChunkSize ?h)) = Inr (length payload)"
    using assms(3,4,5) by (simp add: make_bytes_def)
  have rb: "binary_Read (length payload) (\<lambda>ba. ba) (payload @ rest) = Inr (payload, rest)"
    by (rule binary_Read_append) simp
  show ?thesis by (simp add: Chunk_decode_unknown[OF rd assms(2)] mk rb)
qed

text \<open>
  Claim C8. A chunk whose tag is none of \<^verbatim>\<open>desc\<close>, \<^verbatim>\<open>chan\<close>, \<^verbatim>\<open>info\<close>, \<^verbatim>\<open>data\<close>,
  \<^verbatim>\<open>pakt\<close>, \<^verbatim>\<open>midi\<close> decodes to an opaque blob of exactly as many bytes as its header
  declares, and \<^verbatim>\<open>Chunk.Encode\<close> of the decoded chunk writes the 12 header bytes and the
  blob bytes that were read. First conjunct: this holds of every such chunk that
  \<^verbatim>\<open>Chunk.decode\<close> returns. Second conjunct: \<^verbatim>\<open>Chunk.decode\<close> does return it whenever the
  declared size \<open>N \<ge> 0\<close> can be allocated and the header is followed by \<open>N\<close> bytes.
\<close>

theorem Chunk_unknown_preserved:
  "(Chunk_decode lim r = Inr (c, r') \<and> unknown_tag (ChunkType (Chunk.Header c)) \<longrightarrow>
      (\<exists>blob. Contents c = PUnknownContents blob
         \<and> int (length blob) = sint (ChunkSize (Chunk.Header c))
         \<and> Chunk_Encode c = Inr (put_ChunkHeader (Chunk.Header c) @ blob)
         \<and> r = put_ChunkHeader (Chunk.Header c) @ blob @ r'))
   \<and> (length hdr = 12 \<and> unknown_tag (ChunkType (get_ChunkHeader hdr))
        \<and> 0 \<le> sint (ChunkSize (get_ChunkHeader hdr)) \<and> sint (ChunkSize (get_ChunkHeader hdr)) \<le> lim
        \<and> int (length payload) = sint (ChunkSize (get_ChunkHeader hdr)) \<longrightarrow>
      Chunk_decode lim (hdr @ payload @ rest)
        = Inr (\<lparr>Chunk.Header = get_ChunkHeader hdr, Contents = PUnknownContents payload\<rparr>, rest)
      \<and> Chunk_Encode \<lparr>Chunk.Header = get_ChunkHeader hdr, Contents = PUnknownContents payload\<rparr>
        = Inr (hdr @ payload))"
proof (intro conjI impI)
  assume "Chunk_decode lim r = Inr (c, r') \<and> unknown_tag (ChunkType (Chunk.Header c))"
  then show "\<exists>blob. Contents c = PUnknownContents blob
         \<and> int (length blob) = sint (ChunkSize (Chunk.Header c))
         \<and> Chunk_Encode c = Inr (put_ChunkHeader (Chunk.Header c) @ blob)
         \<and> r = put_ChunkHeader (Chunk.Header c) @ blob @ r'"
    using Chunk_decode_unknown_post by blast
next
  assume a: "length hdr = 12 \<and> unknown_tag (ChunkType (get_ChunkHeader hdr))
        \<and> 0 \<le> sint (ChunkSize (get_ChunkHeader hdr)) \<and> sint (ChunkSize (get_ChunkHeader hdr)) \<le> lim
        \<and> int (length payload) = sint (ChunkSize (get_ChunkHeader hdr))"
  then show "Chunk_decode lim (hdr @ payload @ rest)
        = Inr (\<lparr>Chunk.Header = get_ChunkHeader hdr, Contents = PUnknownContents payload\<rparr>, rest)"
    by (intro Chunk_decode_unknown_run) simp_all
  from a show "Chunk_Encode \<lparr>Chunk.Header = get_ChunkHeader hdr, Contents = PUnknownContents payload\<rparr>
        = Inr (hdr @ payload)"
    by (simp add: Chunk_Encode_unknown put_get_ChunkHeader)
qed

lemma zzzz_header:
  "get_ChunkHeader [122, 122, 122, 122, 0, 0, 0, 0, 0, 0, 0, 3]
     = \<lparr>ChunkType = (122, 122, 122, 122), ChunkSize = 3\<rparr>"
  by (simp add: get_ChunkHeader_def seg_def get_FourByteString_def be_word_def be_nat_def)

lemma zzzz_unknown: "unknown_tag (122, 122, 122, 122)"
  by (simp add: unknown_tag_def ChunkType_values)

theorem Chunk_unknown_preserved_witness:
  "Chunk_decode 1024 ([122, 122, 122, 122, 0, 0, 0, 0, 0, 0, 0, 3] @ [7, 8, 9] @ [1, 2])
     = Inr (\<lparr>Chunk.Header = \<lparr>ChunkType = (122, 122, 122, 122), ChunkSize = 3\<rparr>,
             Contents = PUnknownContents [7, 8, 9]\<rparr>, [1, 2])
   \<and> Chunk_Encode \<lparr>Chunk.Header = \<lparr>ChunkType = (122, 122, 122, 122), ChunkSize = 3\<rparr>,
             Contents = PUnknownContents [7, 8, 9]\<rparr>
     = Inr ([122, 122, 122, 122, 0, 0, 0, 0, 0, 0, 0, 3] @ [7, 8, 9])"
  using Chunk_unknown_preserved[of 1024
      "[122, 122, 122, 122, 0, 0, 0, 0, 0, 0, 0, 3] @ [7, 8, 9] @ [1, 2]"
      "\<lparr>Chunk.Header = \<lparr>ChunkType = (122, 122, 122, 122), ChunkSize = 3\<rparr>,
        Contents = PUnknownContents [7, 8, 9]\<rparr>" "[1, 2]"
      "[122, 122, 122, 122, 0, 0, 0, 0, 0, 0, 0, 3]" "[7, 8, 9]" "[1, 2]", THEN conjunct2]
  by (simp add: zzzz_header zzzz_unknown)

section \<open>Facts about the loop of File.Decode\<close>

lemma File_Decode_loop_step:
  "Chunk_decode lim r = Inr (c, r') \<Longrightarrow>
     File_Decode_loop lim r acc = File_Decode_loop lim r' (acc @ [c])"
  by (simp add: File_Decode_loop.simps[of lim r])

lemma File_Decode_loop_EOF:
  "Chunk_decode lim r = Inl EOF \<Longrightarrow> File_Decode_loop lim r acc = Inr acc"
  by (simp add: File_Decode_loop.simps[of lim r])

lemma File_Decode_loop_err:
  "Chunk_decode lim r = Inl e \<Longrightarrow> e \<noteq> EOF \<Longrightarrow> File_Decode_loop lim r acc = Inl e"
  by (simp add: File_Decode_loop.simps[of lim r])

lemma decodes_chunks_loop:
  "decodes_chunks lim r cs t \<Longrightarrow>
     File_Decode_loop lim r acc = File_Decode_loop lim t (acc @ cs)"
proof (induction arbitrary: acc rule: decodes_chunks.induct)
  case (none r)
  then show ?case by simp
next
  case (more r c r1 cs r')
  show ?case using more.IH[of "acc @ [c]"] File_Decode_loop_step[OF more.hyps(1), of acc] by simp
qed

lemma File_Decode_loop_Inl:
  "File_Decode_loop lim r acc = Inl e \<Longrightarrow>
     \<exists>cs t. decodes_chunks lim r cs t \<and> Chunk_decode lim t = Inl e \<and> e \<noteq> EOF"
proof (induction lim r acc rule: File_Decode_loop.induct)
  case (1 lim r chunks)
  show ?case
  proof (cases "Chunk_decode lim r")
    case (Inl e')
    with "1.prems" have "e' = e" "e \<noteq> EOF"
      by (auto simp: File_Decode_loop.simps[of lim r] split: if_splits)
    with Inl show ?thesis using decodes_chunks.none by blast
  next
    case (Inr p)
    obtain c r1 where p: "p = (c, r1)" by (cases p)
    from "1.prems" Inr p have "File_Decode_loop lim r1 (chunks @ [c]) = Inl e"
      by (simp add: File_Decode_loop.simps[of lim r])
    from "1.IH"[OF Inr p[symmetric] this] obtain cs t where
      "decodes_chunks lim r1 cs t" "Chunk_decode lim t = Inl e" "e \<noteq> EOF" by blast
    with Inr p show ?thesis using decodes_chunks.more by blast
  qed
qed

section \<open>Errors of the payload decoders\<close>

lemma ReadFull_Inl: "ReadFull n r = Inl e \<Longrightarrow> end_of_stream e"
  by (auto simp: ReadFull_def end_of_stream_def split: if_splits)

lemma binary_Read_Inl: "binary_Read n g r = Inl e \<Longrightarrow> end_of_stream e"
  by (auto simp: binary_Read_def split: sum.splits dest: ReadFull_Inl)

lemma binary_Read_short:
  "0 < length r \<Longrightarrow> length r < n \<Longrightarrow> binary_Read n g r = Inl ErrUnexpectedEOF"
  by (auto simp: binary_Read_def ReadFull_def)

lemma binary_Read_empty: "0 < n \<Longrightarrow> binary_Read n g [] = Inl EOF"
  by (auto simp: binary_Read_def ReadFull_def)

lemma decodeInt_loop_Inl: "decodeInt_loop res k r = Inl e \<Longrightarrow> e = EOF"
proof (induction r arbitrary: res k)
  case Nil
  then show ?case by simp
next
  case (Cons a r)
  show ?case
  proof (cases "a AND 128 = 0 \<or> k + 1 \<ge> 8")
    case True
    with Cons.prems show ?thesis by (auto simp: Let_def)
  next
    case False
    with Cons.prems
    have "decodeInt_loop (push_bit 7 res OR ucast (a AND 127)) (k + 1) r = Inl e"
      by (simp add: Let_def)
    then show ?thesis by (rule Cons.IH)
  qed
qed

lemma decodeInt_Inl: "decodeInt r = Inl e \<Longrightarrow> end_of_stream e"
  unfolding decodeInt_def end_of_stream_def by (auto dest: decodeInt_loop_Inl)

lemma PacketTable_decode_loop_Inl:
  "PacketTable_decode_loop i n r entry = Inl e \<Longrightarrow> end_of_stream e"
proof (induction i n r entry rule: PacketTable_decode_loop.induct)
  case (1 i n r entry)
  show ?case
  proof (cases "i < n")
    case True
    show ?thesis
    proof (cases "decodeInt r")
      case (Inl e')
      with True "1.prems" have "e' = e" by (simp add: PacketTable_decode_loop.simps[of i n r entry])
      with Inl show ?thesis by (auto dest: decodeInt_Inl)
    next
      case (Inr p)
      obtain v r1 where p: "p = (v, r1)" by (cases p)
      with True Inr "1.prems" have "PacketTable_decode_loop (i + 1) n r1 (entry @ [v]) = Inl e"
        by (simp add: PacketTable_decode_loop.simps[of i n r entry])
      from "1.IH"[OF True Inr p[symmetric] this] show ?thesis .
    qed
  next
    case False
    with "1.prems" show ?thesis by (simp add: PacketTable_decode_loop.simps[of i n r entry])
  qed
qed

lemma PacketTable_decode_Inl: "PacketTable_decode r = Inl e \<Longrightarrow> end_of_stream e"
  by (auto simp: PacketTable_decode_def split: sum.splits
      dest: binary_Read_Inl PacketTable_decode_loop_Inl)

lemma Information_decode_Inl: "Information_decode r = Inl e \<Longrightarrow> end_of_stream e"
  by (auto simp: Information_decode_def end_of_stream_def split: sum.splits dest: readString_Inl)

lemma CAFStringsChunk_decode_loop_Inl:
  "CAFStringsChunk_decode_loop i n r strings = Inl e \<Longrightarrow> end_of_stream e"
proof (induction i n r strings rule: CAFStringsChunk_decode_loop.induct)
  case (1 i n r strings)
  show ?case
  proof (cases "i < n")
    case True
    show ?thesis
    proof (cases "Information_decode r")
      case (Inl e')
      with True "1.prems" have "e' = e"
        by (simp add: CAFStringsChunk_decode_loop.simps[of i n r strings])
      with Inl show ?thesis by (auto dest: Information_decode_Inl)
    next
      case (Inr p)
      obtain v r1 where p: "p = (v, r1)" by (cases p)
      with True Inr "1.prems"
      have "CAFStringsChunk_decode_loop (i + 1) n r1 (strings @ [v]) = Inl e"
        by (simp add: CAFStringsChunk_decode_loop.simps[of i n r strings])
      from "1.IH"[OF True Inr p[symmetric] this] show ?thesis .
    qed
  next
    case False
    with "1.prems" show ?thesis by (simp add: CAFStringsChunk_decode_loop.simps[of i n r strings])
  qed
qed

lemma CAFStringsChunk_decode_Inl: "CAFStringsChunk_decode r = Inl e \<Longrightarrow> end_of_stream e"
  by (auto simp: CAFStringsChunk_decode_def split: sum.splits
      dest: binary_Read_Inl CAFStringsChunk_decode_loop_Inl)

lemma ChannelLayout_decode_loop_Inl:
  "ChannelLayout_decode_loop i n r channels = Inl e \<Longrightarrow> end_of_stream e"
proof (induction i n r channels rule: ChannelLayout_decode_loop.induct)
  case (1 i n r channels)
  show ?case
  proof (cases "i < n")
    case True
    show ?thesis
    proof (cases "binary_Read 20 get_ChannelDescription r")
      case (Inl e')
      with True "1.prems" have "e' = e"
        by (simp add: ChannelLayout_decode_loop.simps[of i n r channels])
      with Inl show ?thesis by (auto dest: binary_Read_Inl)
    next
      case (Inr p)
      obtain v r1 where p: "p = (v, r1)" by (cases p)
      with True Inr "1.prems"
      have "ChannelLayout_decode_loop (i + 1) n r1 (channels @ [v]) = Inl e"
        by (simp add: ChannelLayout_decode_loop.simps[of i n r channels])
      from "1.IH"[OF True Inr p[symmetric] this] show ?thesis .
    qed
  next
    case False
    with "1.prems" show ?thesis by (simp add: ChannelLayout_decode_loop.simps[of i n r channels])
  qed
qed

lemma ChannelLayout_decode_Inl: "ChannelLayout_decode r = Inl e \<Longrightarrow> end_of_stream e"
  by (auto simp: ChannelLayout_decode_def split: sum.splits
      dest!: binary_Read_Inl ChannelLayout_decode_loop_Inl)

lemma Data_decode_Inl: "Data_decode r h = Inl e \<Longrightarrow> end_of_stream e"
  by (auto simp: Data_decode_def ReadAll_def ReadAll_LimitReader_def Let_def
      split: sum.splits if_splits dest: binary_Read_Inl)

lemma AudioFormat_decode_Inl: "AudioFormat_decode r = Inl e \<Longrightarrow> end_of_stream e"
  by (auto simp: AudioFormat_decode_def dest: binary_Read_Inl)


section \<open>Errors of the chunk framer\<close>

lemma make_bytes_Inl:
  "make_bytes lim n = Inl e \<Longrightarrow> e = PanicMakeslice \<and> (n < 0 \<or> lim < n)"
  by (auto simp: make_bytes_def split: if_splits)

lemma tag_cases:
  obtains (desc) "ChunkType h = ChunkTypeAudioDescription"
  | (chan) "ChunkType h = ChunkTypeChannelLayout"
  | (info) "ChunkType h = ChunkTypeInformation"
  | (data) "ChunkType h = ChunkTypeAudioData"
  | (pakt) "ChunkType h = ChunkTypePacketTable"
  | (midi) "ChunkType h = ChunkTypeMidi"
  | (unknown) "unknown_tag (ChunkType h)"
  unfolding unknown_tag_def by blast

lemma Chunk_decode_error:
  assumes "Chunk_decode lim r = Inl e"
  shows "end_of_stream e \<or>
     (e = PanicMakeslice \<and>
      (\<exists>h r1. binary_Read 12 get_ChunkHeader r = Inr (h, r1) \<and> bad_blob_size lim h))"
proof (cases "binary_Read 12 get_ChunkHeader r")
  case (Inl e')
  with assms have "e' = e" by (simp add: Chunk_decode_def)
  with Inl show ?thesis by (auto dest: binary_Read_Inl)
next
  case (Inr p)
  obtain h r1 where p: "p = (h, r1)" by (cases p)
  note rd = Inr[unfolded p]
  show ?thesis
  proof (cases h rule: tag_cases)
    case desc
    with assms show ?thesis
      by (auto simp: Chunk_decode_desc[OF rd] split: sum.splits dest: AudioFormat_decode_Inl)
  next
    case chan
    with assms show ?thesis
      by (auto simp: Chunk_decode_chan[OF rd] split: sum.splits dest: ChannelLayout_decode_Inl)
  next
    case info
    with assms show ?thesis
      by (auto simp: Chunk_decode_info[OF rd] split: sum.splits dest: CAFStringsChunk_decode_Inl)
  next
    case data
    with assms show ?thesis
      by (auto simp: Chunk_decode_data[OF rd] split: sum.splits dest: Data_decode_Inl)
  next
    case pakt
    with assms show ?thesis
      by (auto simp: Chunk_decode_pakt[OF rd] split: sum.splits dest: PacketTable_decode_Inl)
  next
    case midi
    show ?thesis
    proof (cases "make_bytes lim (sint (ChunkSize h))")
      case (Inl e')
      with assms midi have "e' = e" by (simp add: Chunk_decode_midi[OF rd])
      with make_bytes_Inl[OF Inl] midi rd show ?thesis by (auto simp: bad_blob_size_def)
    next
      case (Inr n)
      with assms midi have "binary_Read n (\<lambda>ba. ba) r1 = Inl e"
        by (auto simp: Chunk_decode_midi[OF rd] split: sum.splits)
      then show ?thesis by (auto dest: binary_Read_Inl)
    qed
  next
    case unknown
    show ?thesis
    proof (cases "make_bytes lim (sint (ChunkSize h))")
      case (Inl e')
      with assms unknown have "e' = e" by (simp add: Chunk_decode_unknown[OF rd])
      with make_bytes_Inl[OF Inl] unknown rd show ?thesis by (auto simp: bad_blob_size_def)
    next
      case (Inr n)
      with assms unknown have "binary_Read n (\<lambda>ba. ba) r1 = Inl e"
        by (auto simp: Chunk_decode_unknown[OF rd] split: sum.splits)
      then show ?thesis by (auto dest: binary_Read_Inl)
    qed
  qed
qed

lemma Chunk_decode_panic:
  assumes "binary_Read 12 get_ChunkHeader r = Inr (h, r1)" "bad_blob_size lim h"
  shows "Chunk_decode lim r = Inl PanicMakeslice"
proof -
  have mk: "make_bytes lim (sint (ChunkSize h)) = Inl PanicMakeslice"
    using assms(2) by (auto simp: bad_blob_size_def make_bytes_def)
  from assms(2) consider "ChunkType h = ChunkTypeMidi" | "unknown_tag (ChunkType h)"
    by (auto simp: bad_blob_size_def)
  then show ?thesis
  proof cases
    case 1
    then show ?thesis by (simp add: Chunk_decode_midi[OF assms(1)] mk)
  next
    case 2
    then show ?thesis by (simp add: Chunk_decode_unknown[OF assms(1)] mk)
  qed
qed

lemma Chunk_decode_header_short:
  "0 < length t \<Longrightarrow> length t < 12 \<Longrightarrow> Chunk_decode lim t = Inl ErrUnexpectedEOF"
  by (simp add: Chunk_decode_Inl binary_Read_short)

lemma Chunk_decode_empty: "Chunk_decode lim [] = Inl EOF"
  by (simp add: Chunk_decode_Inl binary_Read_empty)

section \<open>Where the end of the stream is reported as unexpected\<close>

lemma binary_Read_eq:
  "binary_Read n g r =
     (if n \<le> length r then Inr (g (take n r), drop n r)
      else if r = [] then Inl EOF else Inl ErrUnexpectedEOF)"
  by (auto simp: binary_Read_def ReadFull_def)

lemma binary_Read_trunc_iff:
  "(binary_Read n g r = Inl ErrUnexpectedEOF) = partial_read n r"
  by (auto simp: binary_Read_eq partial_read_def)

lemma ChannelLayout_decode_loop_trunc_iff:
  "(ChannelLayout_decode_loop i n r channels = Inl ErrUnexpectedEOF)
     = (length r < 20 * (n - i) \<and> length r mod 20 \<noteq> 0)"
proof (induction i n r channels rule: ChannelLayout_decode_loop.induct)
  case (1 i n r channels)
  show ?case
  proof (cases "i < n")
    case False
    then show ?thesis by (subst ChannelLayout_decode_loop.simps) simp
  next
    case True
    show ?thesis
    proof (cases "20 \<le> length r")
      case short: False
      then have "ChannelLayout_decode_loop i n r channels
          = (if r = [] then Inl EOF else Inl ErrUnexpectedEOF)"
        using True by (subst ChannelLayout_decode_loop.simps) (simp add: binary_Read_eq)
      moreover have "length r < 20 * (n - i)" using short True by simp
      ultimately show ?thesis using short by auto
    next
      case long: True
      have rd: "binary_Read 20 get_ChannelDescription r
          = Inr (get_ChannelDescription (take 20 r), drop 20 r)"
        using long by (simp add: binary_Read_eq)
      have "ChannelLayout_decode_loop i n r channels
          = ChannelLayout_decode_loop (i + 1) n (drop 20 r)
              (channels @ [get_ChannelDescription (take 20 r)])"
        using True by (subst ChannelLayout_decode_loop.simps) (simp add: rd)
      moreover have "(ChannelLayout_decode_loop (i + 1) n (drop 20 r)
              (channels @ [get_ChannelDescription (take 20 r)]) = Inl ErrUnexpectedEOF)
          = (length (drop 20 r) < 20 * (n - (i + 1)) \<and> length (drop 20 r) mod 20 \<noteq> 0)"
        by (rule "1.IH"[OF True rd refl])
      moreover have "(length (drop 20 r) < 20 * (n - (i + 1))) = (length r < 20 * (n - i))"
        using long True by (simp add: diff_mult_distrib2) linarith
      moreover have "length (drop 20 r) mod 20 = length r mod 20"
        using long by (simp add: le_mod_geq)
      ultimately show ?thesis by simp
    qed
  qed
qed

lemma ChannelLayout_decode_trunc_iff:
  "(ChannelLayout_decode p = Inl ErrUnexpectedEOF)
     = (partial_read 4 p \<or> partial_read 4 (drop 4 p) \<or> partial_read 4 (drop 8 p)
        \<or> (12 \<le> length p
           \<and> length (drop 12 p) < 20 * unat (be_word (seg 8 4 p) :: 32 word)
           \<and> length (drop 12 p) mod 20 \<noteq> 0))"
proof -
  consider (a) "length p < 4" | (b) "4 \<le> length p" "length p < 8"
    | (c) "8 \<le> length p" "length p < 12" | (d) "12 \<le> length p" by linarith
  then show ?thesis
  proof cases
    case a
    then show ?thesis
      by (auto simp: ChannelLayout_decode_def binary_Read_eq partial_read_def)
  next
    case b
    then show ?thesis
      by (auto simp: ChannelLayout_decode_def binary_Read_eq partial_read_def)
  next
    case c
    then show ?thesis
      by (auto simp: ChannelLayout_decode_def binary_Read_eq partial_read_def)
  next
    case d
    have "(ChannelLayout_decode p = Inl ErrUnexpectedEOF)
        = (ChannelLayout_decode_loop 0 (unat (be_word (seg 8 4 p) :: 32 word)) (drop 12 p) []
             = Inl ErrUnexpectedEOF)"
      using d by (auto simp: ChannelLayout_decode_def binary_Read_eq seg_def split: sum.splits)
    moreover have "\<not> length p - 4 < 4" "\<not> length p - 8 < 4" using d by simp_all
    ultimately show ?thesis
      using d by (simp add: ChannelLayout_decode_loop_trunc_iff partial_read_def)
  qed
qed

lemma Information_decode_Inl_EOF: "Information_decode r = Inl e \<Longrightarrow> e = EOF"
  by (auto simp: Information_decode_def split: sum.splits dest: readString_Inl)

lemma CAFStringsChunk_decode_loop_Inl_EOF:
  "CAFStringsChunk_decode_loop i n r strings = Inl e \<Longrightarrow> e = EOF"
proof (induction i n r strings rule: CAFStringsChunk_decode_loop.induct)
  case (1 i n r strings)
  show ?case
  proof (cases "i < n")
    case True
    show ?thesis
    proof (cases "Information_decode r")
      case (Inl e')
      with True "1.prems" have "e' = e"
        by (simp add: CAFStringsChunk_decode_loop.simps[of i n r strings])
      with Inl show ?thesis by (auto dest: Information_decode_Inl_EOF)
    next
      case (Inr p)
      obtain v r1 where p: "p = (v, r1)" by (cases p)
      with True Inr "1.prems"
      have "CAFStringsChunk_decode_loop (i + 1) n r1 (strings @ [v]) = Inl e"
        by (simp add: CAFStringsChunk_decode_loop.simps[of i n r strings])
      from "1.IH"[OF True Inr p[symmetric] this] show ?thesis .
    qed
  next
    case False
    with "1.prems" show ?thesis by (simp add: CAFStringsChunk_decode_loop.simps[of i n r strings])
  qed
qed

lemma CAFStringsChunk_decode_trunc_iff:
  "(CAFStringsChunk_decode p = Inl ErrUnexpectedEOF) = partial_read 4 p"
  by (auto simp: CAFStringsChunk_decode_def binary_Read_eq partial_read_def
      split: sum.splits dest: CAFStringsChunk_decode_loop_Inl_EOF)

lemma PacketTable_decode_loop_Inl_EOF:
  "PacketTable_decode_loop i n r entry = Inl e \<Longrightarrow> e = EOF"
proof (induction i n r entry rule: PacketTable_decode_loop.induct)
  case (1 i n r entry)
  show ?case
  proof (cases "i < n")
    case True
    show ?thesis
    proof (cases "decodeInt r")
      case (Inl e')
      with True "1.prems" have "e' = e" by (simp add: PacketTable_decode_loop.simps[of i n r entry])
      with Inl show ?thesis unfolding decodeInt_def by (auto dest: decodeInt_loop_Inl)
    next
      case (Inr p)
      obtain v r1 where p: "p = (v, r1)" by (cases p)
      with True Inr "1.prems" have "PacketTable_decode_loop (i + 1) n r1 (entry @ [v]) = Inl e"
        by (simp add: PacketTable_decode_loop.simps[of i n r entry])
      from "1.IH"[OF True Inr p[symmetric] this] show ?thesis .
    qed
  next
    case False
    with "1.prems" show ?thesis by (simp add: PacketTable_decode_loop.simps[of i n r entry])
  qed
qed

lemma PacketTable_decode_trunc_iff:
  "(PacketTable_decode p = Inl ErrUnexpectedEOF) = partial_read 24 p"
  by (auto simp: PacketTable_decode_def binary_Read_eq partial_read_def
      split: sum.splits dest: PacketTable_decode_loop_Inl_EOF)

lemma Data_decode_trunc_iff:
  "(Data_decode p h = Inl ErrUnexpectedEOF) = partial_read 4 p"
  by (auto simp: Data_decode_def binary_Read_eq partial_read_def ReadAll_def
      ReadAll_LimitReader_def Let_def split: sum.splits)

lemma AudioFormat_decode_trunc_iff:
  "(AudioFormat_decode p = Inl ErrUnexpectedEOF) = partial_read 32 p"
  by (simp add: AudioFormat_decode_def binary_Read_trunc_iff)

lemma blob_trunc_iff:
  "((case make_bytes lim s of
        Inl err \<Rightarrow> Inl err
      | Inr n \<Rightarrow>
          (case binary_Read n (\<lambda>ba. ba) p of
             Inl err \<Rightarrow> Inl err
           | Inr (ba, r2) \<Rightarrow> Inr (f ba, r2))) = Inl ErrUnexpectedEOF)
     = (0 \<le> s \<and> s \<le> lim \<and> partial_read (nat s) p)"
  by (auto simp: make_bytes_def binary_Read_eq partial_read_def)

lemma Chunk_decode_trunc_iff:
  "(Chunk_decode lim t = Inl ErrUnexpectedEOF) = ends_inside_read lim t"
proof (cases "12 \<le> length t")
  case False
  then have "Chunk_decode lim t = (if t = [] then Inl EOF else Inl ErrUnexpectedEOF)"
    by (simp add: Chunk_decode_def binary_Read_eq)
  with False show ?thesis by (auto simp: ends_inside_read_def partial_read_def)
next
  case True
  define h where "h = get_ChunkHeader (take 12 t)"
  define p where "p = drop 12 t"
  have rd: "binary_Read 12 get_ChunkHeader t = Inr (h, p)"
    using True by (simp add: binary_Read_eq h_def p_def)
  have np: "\<not> partial_read 12 t" using True by (simp add: partial_read_def)
  show ?thesis
  proof (cases h rule: tag_cases)
    case desc
    have "(Chunk_decode lim t = Inl ErrUnexpectedEOF) = (AudioFormat_decode p = Inl ErrUnexpectedEOF)"
      unfolding Chunk_decode_desc[OF rd desc] by (auto split: sum.splits)
    then show ?thesis
      using True np desc
      by (simp add: ends_inside_read_def Let_def h_def[symmetric] p_def[symmetric]
          AudioFormat_decode_trunc_iff)
  next
    case chan
    have "(Chunk_decode lim t = Inl ErrUnexpectedEOF) = (ChannelLayout_decode p = Inl ErrUnexpectedEOF)"
      unfolding Chunk_decode_chan[OF rd chan] by (auto split: sum.splits)
    then show ?thesis
      using True np chan
      by (simp add: ends_inside_read_def Let_def h_def[symmetric] p_def[symmetric]
          ChannelLayout_decode_trunc_iff ChunkType_values)
  next
    case info
    have "(Chunk_decode lim t = Inl ErrUnexpectedEOF) = (CAFStringsChunk_decode p = Inl ErrUnexpectedEOF)"
      unfolding Chunk_decode_info[OF rd info] by (auto split: sum.splits)
    then show ?thesis
      using True np info
      by (simp add: ends_inside_read_def Let_def h_def[symmetric] p_def[symmetric]
          CAFStringsChunk_decode_trunc_iff ChunkType_values)
  next
    case data
    have "(Chunk_decode lim t = Inl ErrUnexpectedEOF) = (Data_decode p h = Inl ErrUnexpectedEOF)"
      unfolding Chunk_decode_data[OF rd data] by (auto split: sum.splits)
    then show ?thesis
      using True np data
      by (simp add: ends_inside_read_def Let_def h_def[symmetric] p_def[symmetric]
          Data_decode_trunc_iff ChunkType_values)
  next
    case pakt
    have "(Chunk_decode lim t = Inl ErrUnexpectedEOF) = (PacketTable_decode p = Inl ErrUnexpectedEOF)"
      unfolding Chunk_decode_pakt[OF rd pakt] by (auto split: sum.splits)
    then show ?thesis
      using True np pakt
      by (simp add: ends_inside_read_def Let_def h_def[symmetric] p_def[symmetric]
          PacketTable_decode_trunc_iff ChunkType_values)
  next
    case midi
    have "(Chunk_decode lim t = Inl ErrUnexpectedEOF)
        = (0 \<le> sint (ChunkSize h) \<and> sint (ChunkSize h) \<le> lim
           \<and> partial_read (nat (sint (ChunkSize h))) p)"
      unfolding Chunk_decode_midi[OF rd midi] by (rule blob_trunc_iff)
    then show ?thesis
      using True np midi
      by (simp add: ends_inside_read_def Let_def h_def[symmetric] p_def[symmetric]
          ChunkType_values)
  next
    case unknown
    have "(Chunk_decode lim t = Inl ErrUnexpectedEOF)
        = (0 \<le> sint (ChunkSize h) \<and> sint (ChunkSize h) \<le> lim
           \<and> partial_read (nat (sint (ChunkSize h))) p)"
      unfolding Chunk_decode_unknown[OF rd unknown] by (rule blob_trunc_iff)
    then show ?thesis
      using True np unknown
      by (simp add: ends_inside_read_def Let_def h_def[symmetric] p_def[symmetric]
          unknown_tag_def)
  qed
qed

lemma FileHeader_Decode_trunc_iff:
  "(FileHeader_Decode B = Inl ErrUnexpectedEOF) = partial_read 8 B"
  by (auto simp: FileHeader_Decode_def binary_Read_eq partial_read_def)

section \<open>Errors of File.Decode\<close>

lemma File_Decode_reaches_error:
  assumes "FileHeader_Decode B = Inr (fh, r0)" "decodes_chunks lim r0 cs t"
    "Chunk_decode lim t = Inl e" "e \<noteq> EOF"
  shows "File_Decode lim cf B = Inl e"
proof -
  have "File_Decode_loop lim r0 (Chunks cf) = File_Decode_loop lim t (Chunks cf @ cs)"
    using assms(2) by (rule decodes_chunks_loop)
  also have "\<dots> = Inl e" using assms(3,4) by (rule File_Decode_loop_err)
  finally show ?thesis using assms(1) by (simp add: File_Decode_def)
qed

lemma File_Decode_reaches_end:
  assumes "FileHeader_Decode B = Inr (fh, r0)" "decodes_chunks lim r0 cs t"
    "Chunk_decode lim t = Inl EOF"
  shows "File_Decode lim cf B = Inr \<lparr>FileHeader = fh, Chunks = Chunks cf @ cs\<rparr>"
proof -
  have "File_Decode_loop lim r0 (Chunks cf) = File_Decode_loop lim t (Chunks cf @ cs)"
    using assms(2) by (rule decodes_chunks_loop)
  also have "\<dots> = Inr (Chunks cf @ cs)" using assms(3) by (rule File_Decode_loop_EOF)
  finally show ?thesis using assms(1) by (simp add: File_Decode_def)
qed

lemma FileHeader_Decode_Inl:
  "FileHeader_Decode B = Inl e \<Longrightarrow> end_of_stream e \<or> e = ErrInvalidCaffHeader"
  by (auto simp: FileHeader_Decode_def split: sum.splits if_splits dest: binary_Read_Inl)

lemma File_Decode_Inl:
  assumes "File_Decode lim cf B = Inl e"
  shows "end_of_stream e \<or> e = ErrInvalidCaffHeader \<or>
     (e = PanicMakeslice \<and>
      (\<exists>fh r0 cs t h r1. FileHeader_Decode B = Inr (fh, r0) \<and> decodes_chunks lim r0 cs t
         \<and> binary_Read 12 get_ChunkHeader t = Inr (h, r1) \<and> bad_blob_size lim h))"
proof (cases "FileHeader_Decode B")
  case (Inl e')
  with assms have "e' = e" by (simp add: File_Decode_def)
  with Inl show ?thesis by (auto dest: FileHeader_Decode_Inl)
next
  case (Inr p)
  obtain fh r0 where p: "p = (fh, r0)" by (cases p)
  from assms Inr p have "File_Decode_loop lim r0 (Chunks cf) = Inl e"
    by (auto simp: File_Decode_def split: sum.splits)
  from File_Decode_loop_Inl[OF this] obtain cs t where
    reach: "decodes_chunks lim r0 cs t" and err: "Chunk_decode lim t = Inl e" by blast
  from Chunk_decode_error[OF err] show ?thesis
  proof
    assume "end_of_stream e"
    then show ?thesis by simp
  next
    assume "e = PanicMakeslice \<and>
      (\<exists>h r1. binary_Read 12 get_ChunkHeader t = Inr (h, r1) \<and> bad_blob_size lim h)"
    with Inr p reach show ?thesis by blast
  qed
qed

text \<open>
  Claim C9, as the code has it. \<^verbatim>\<open>File.Decode\<close> always terminates (every function above
  is total: each loop is bounded by its count or by the length of the stream). When it does
  not return a \<^verbatim>\<open>File\<close>, the outcome is \<^verbatim>\<open>io.EOF\<close>, \<^verbatim>\<open>io.ErrUnexpectedEOF\<close>, the
  invalid-header error, or the panic of \<^verbatim>\<open>make\<close>. The panic happens exactly when decoding
  reaches the header of a \<^verbatim>\<open>midi\<close> or unrecognised chunk whose declared size is negative
  or more than can be allocated. No count and no size of a \<^verbatim>\<open>desc\<close>, \<^verbatim>\<open>chan\<close>, \<^verbatim>\<open>info\<close>,
  \<^verbatim>\<open>data\<close> or \<^verbatim>\<open>pakt\<close> chunk, however large or negative, makes it panic.
\<close>

theorem File_Decode_panics_only_on_blob_size:
  "(File_Decode lim cf B = Inl e \<longrightarrow>
      e = EOF \<or> e = ErrUnexpectedEOF \<or> e = ErrInvalidCaffHeader \<or> e = PanicMakeslice)
   \<and> ((\<exists>fh r0 cs t h r1. FileHeader_Decode B = Inr (fh, r0) \<and> decodes_chunks lim r0 cs t
          \<and> binary_Read 12 get_ChunkHeader t = Inr (h, r1) \<and> bad_blob_size lim h)
        = (File_Decode lim cf B = Inl PanicMakeslice))"
proof (intro conjI impI iffI)
  assume "File_Decode lim cf B = Inl e"
  from File_Decode_Inl[OF this]
  show "e = EOF \<or> e = ErrUnexpectedEOF \<or> e = ErrInvalidCaffHeader \<or> e = PanicMakeslice"
    by (auto simp: end_of_stream_def)
next
  assume "\<exists>fh r0 cs t h r1. FileHeader_Decode B = Inr (fh, r0) \<and> decodes_chunks lim r0 cs t
          \<and> binary_Read 12 get_ChunkHeader t = Inr (h, r1) \<and> bad_blob_size lim h"
  then obtain fh r0 cs t h r1 where a: "FileHeader_Decode B = Inr (fh, r0)"
    "decodes_chunks lim r0 cs t" "binary_Read 12 get_ChunkHeader t = Inr (h, r1)"
    "bad_blob_size lim h" by blast
  from Chunk_decode_panic[OF a(3,4)] have "Chunk_decode lim t = Inl PanicMakeslice" .
  from File_Decode_reaches_error[OF a(1,2) this] show "File_Decode lim cf B = Inl PanicMakeslice"
    by simp
next
  assume "File_Decode lim cf B = Inl PanicMakeslice"
  from File_Decode_Inl[OF this]
  show "\<exists>fh r0 cs t h r1. FileHeader_Decode B = Inr (fh, r0) \<and> decodes_chunks lim r0 cs t
          \<and> binary_Read 12 get_ChunkHeader t = Inr (h, r1) \<and> bad_blob_size lim h"
    by (auto simp: end_of_stream_def)
qed

text \<open>
  Claim C4, as the code has it. \<^verbatim>\<open>File.Decode\<close> fails with the truncation error
  \<^verbatim>\<open>io.ErrUnexpectedEOF\<close> exactly when the stream ends inside a fixed-size read, after
  at least one byte of it: inside the 8-byte file header, or, once the loop has decoded
  some chunks and stands at the start of the next one, inside the 12-byte chunk header or
  inside a fixed-size read of the payload (the audio description, any of the three 32-bit
  fields or any 20-byte description of a channel layout, the count of an information
  table, the edit count of audio data, the packet-table header, the blob of a \<^verbatim>\<open>midi\<close>
  or unrecognised chunk). A stream that ends anywhere else in a chunk is not reported as
  truncated.
\<close>

theorem File_Decode_truncated:
  "(File_Decode lim cf B = Inl ErrUnexpectedEOF)
     = (partial_read 8 B
        \<or> (\<exists>fh r0 cs t. FileHeader_Decode B = Inr (fh, r0) \<and> decodes_chunks lim r0 cs t
             \<and> ends_inside_read lim t))"
proof
  assume a: "File_Decode lim cf B = Inl ErrUnexpectedEOF"
  show "partial_read 8 B
        \<or> (\<exists>fh r0 cs t. FileHeader_Decode B = Inr (fh, r0) \<and> decodes_chunks lim r0 cs t
             \<and> ends_inside_read lim t)"
  proof (cases "FileHeader_Decode B")
    case (Inl e')
    with a have "FileHeader_Decode B = Inl ErrUnexpectedEOF" by (simp add: File_Decode_def)
    then show ?thesis by (simp add: FileHeader_Decode_trunc_iff)
  next
    case (Inr q)
    obtain fh r0 where q: "q = (fh, r0)" by (cases q)
    from a Inr q have "File_Decode_loop lim r0 (Chunks cf) = Inl ErrUnexpectedEOF"
      by (auto simp: File_Decode_def split: sum.splits)
    from File_Decode_loop_Inl[OF this] obtain cs t where
      reach: "decodes_chunks lim r0 cs t" and err: "Chunk_decode lim t = Inl ErrUnexpectedEOF"
      by blast
    from err have "ends_inside_read lim t" by (simp add: Chunk_decode_trunc_iff)
    with Inr q reach show ?thesis by blast
  qed
next
  assume "partial_read 8 B
        \<or> (\<exists>fh r0 cs t. FileHeader_Decode B = Inr (fh, r0) \<and> decodes_chunks lim r0 cs t
             \<and> ends_inside_read lim t)"
  then show "File_Decode lim cf B = Inl ErrUnexpectedEOF"
  proof
    assume "partial_read 8 B"
    then have "FileHeader_Decode B = Inl ErrUnexpectedEOF"
      by (simp add: FileHeader_Decode_trunc_iff)
    then show ?thesis by (simp add: File_Decode_def)
  next
    assume "\<exists>fh r0 cs t. FileHeader_Decode B = Inr (fh, r0) \<and> decodes_chunks lim r0 cs t
             \<and> ends_inside_read lim t"
    then obtain fh r0 cs t where b: "FileHeader_Decode B = Inr (fh, r0)"
      "decodes_chunks lim r0 cs t" "ends_inside_read lim t" by blast
    from b(3) have "Chunk_decode lim t = Inl ErrUnexpectedEOF" by (simp add: Chunk_decode_trunc_iff)
    from File_Decode_reaches_error[OF b(1,2) this] show ?thesis by simp
  qed
qed

section \<open>Worked streams\<close>

lemma caff_header_example:
  "FileHeader_Decode ([99, 97, 102, 102, 0, 1, 0, 0] @ r)
     = Inr (\<lparr>FileType = (99, 97, 102, 102), FileVersion = 1, FileFlags = 0\<rparr>, r)"
proof -
  have g: "get_FileHeader [99, 97, 102, 102, 0, 1, 0, 0]
      = \<lparr>FileType = (99, 97, 102, 102), FileVersion = 1, FileFlags = 0\<rparr>"
    by (simp add: get_FileHeader_def seg_def get_FourByteString_def be_word_def be_nat_def)
  have "binary_Read 8 get_FileHeader ([99, 97, 102, 102, 0, 1, 0, 0] @ r)
      = Inr (get_FileHeader [99, 97, 102, 102, 0, 1, 0, 0], r)"
    by (rule binary_Read_append) simp
  then show ?thesis by (simp add: FileHeader_Decode_def g stringToChunkType_def)
qed

lemma minus_one_header:
  "get_ChunkHeader [122, 122, 122, 122, 255, 255, 255, 255, 255, 255, 255, 255]
     = \<lparr>ChunkType = (122, 122, 122, 122), ChunkSize = - 1\<rparr>"
  by (simp add: get_ChunkHeader_def seg_def get_FourByteString_def be_word_def be_nat_def)

lemma huge_midi_header:
  "get_ChunkHeader [109, 105, 100, 105, 0, 0, 1, 0, 0, 0, 0, 0]
     = \<lparr>ChunkType = ChunkTypeMidi, ChunkSize = 1099511627776\<rparr>"
  by (simp add: get_ChunkHeader_def seg_def get_FourByteString_def be_word_def be_nat_def
      ChunkType_values)

lemma pakt_header:
  "get_ChunkHeader [112, 97, 107, 116, 0, 0, 0, 0, 0, 0, 0, 27]
     = \<lparr>ChunkType = ChunkTypePacketTable, ChunkSize = 27\<rparr>"
  by (simp add: get_ChunkHeader_def seg_def get_FourByteString_def be_word_def be_nat_def
      ChunkType_values)

lemma data_header:
  "get_ChunkHeader [100, 97, 116, 97, 0, 0, 0, 0, 0, 0, 0, 10]
     = \<lparr>ChunkType = ChunkTypeAudioData, ChunkSize = 10\<rparr>"
  by (simp add: get_ChunkHeader_def seg_def get_FourByteString_def be_word_def be_nat_def
      ChunkType_values)

lemma three_packets_header:
  "NumberPackets (get_PacketTableHeader
      [0, 0, 0, 0, 0, 0, 0, 3, 0, 0, 0, 0, 0, 0, 0, 0, 0, 0, 0, 0, 0, 0, 0, 0]) = 3"
  by (simp add: get_PacketTableHeader_def seg_def be_word_def be_nat_def)

lemma three_packets_one_present:
  "PacketTable_decode
     ([0, 0, 0, 0, 0, 0, 0, 3, 0, 0, 0, 0, 0, 0, 0, 0, 0, 0, 0, 0, 0, 0, 0, 0] @ [5]) = Inl EOF"
proof -
  let ?pth = "[0, 0, 0, 0, 0, 0, 0, 3, 0, 0, 0, 0, 0, 0, 0, 0, 0, 0, 0, 0, 0, 0, 0, 0 :: byte]"
  have rd: "binary_Read 24 get_PacketTableHeader (?pth @ [5]) = Inr (get_PacketTableHeader ?pth, [5])"
    by (rule binary_Read_append) simp
  have d1: "decodeInt [5] = Inr (5, [])" by (simp add: decodeInt_def Let_def)
  have d2: "decodeInt [] = Inl EOF" by (simp add: decodeInt_def)
  have l2: "PacketTable_decode_loop 1 3 [] [5] = Inl EOF"
    by (simp add: PacketTable_decode_loop.simps[of 1 3] d2)
  have l1: "PacketTable_decode_loop 0 3 [5] [] = Inl EOF"
    by (simp add: PacketTable_decode_loop.simps[of 0 3] d1 l2)
  show ?thesis unfolding PacketTable_decode_def rd by (simp add: three_packets_header l1)
qed

lemma truncated_pakt_chunk:
  "Chunk_decode lim
     ([112, 97, 107, 116, 0, 0, 0, 0, 0, 0, 0, 27]
      @ [0, 0, 0, 0, 0, 0, 0, 3, 0, 0, 0, 0, 0, 0, 0, 0, 0, 0, 0, 0, 0, 0, 0, 0] @ [5]) = Inl EOF"
proof -
  let ?ch = "[112, 97, 107, 116, 0, 0, 0, 0, 0, 0, 0, 27 :: byte]"
  let ?p = "[0, 0, 0, 0, 0, 0, 0, 3, 0, 0, 0, 0, 0, 0, 0, 0, 0, 0, 0, 0, 0, 0, 0, 0] @ [5 :: byte]"
  have rd: "binary_Read 12 get_ChunkHeader (?ch @ ?p)
      = Inr (\<lparr>ChunkType = ChunkTypePacketTable, ChunkSize = 27\<rparr>, ?p)"
    using binary_Read_append[of ?ch 12 get_ChunkHeader ?p] by (simp only: pakt_header) simp
  have ty: "ChunkType \<lparr>ChunkType = ChunkTypePacketTable, ChunkSize = 27\<rparr> = ChunkTypePacketTable"
    by simp
  show ?thesis
    unfolding Chunk_decode_pakt[OF rd ty] three_packets_one_present by simp
qed

lemma short_data_chunk:
  "Chunk_decode lim ([100, 97, 116, 97, 0, 0, 0, 0, 0, 0, 0, 10] @ [0, 0, 0, 1, 9, 8])
     = Inr (\<lparr>Chunk.Header = \<lparr>ChunkType = ChunkTypeAudioData, ChunkSize = 10\<rparr>,
             Contents = PData \<lparr>EditCount = 1, Data = [9, 8]\<rparr>\<rparr>, [])"
proof -
  let ?ch = "[100, 97, 116, 97, 0, 0, 0, 0, 0, 0, 0, 10 :: byte]"
  have rd: "binary_Read 12 get_ChunkHeader (?ch @ [0, 0, 0, 1, 9, 8])
      = Inr (\<lparr>ChunkType = ChunkTypeAudioData, ChunkSize = 10\<rparr>, [0, 0, 0, 1, 9, 8])"
    using binary_Read_append[of ?ch 12 get_ChunkHeader "[0, 0, 0, 1, 9, 8]"]
    by (simp only: data_header) simp
  have ty: "ChunkType \<lparr>ChunkType = ChunkTypeAudioData, ChunkSize = 10\<rparr> = ChunkTypeAudioData"
    by simp
  show ?thesis
    unfolding Chunk_decode_data[OF rd ty] Data_decode_short_example by simp
qed

text \<open>
  Claim C4 as stated fails. A packet table that declares 3 packets and is followed by a
  single varint: \<^verbatim>\<open>decodeInt\<close> reports \<^verbatim>\<open>io.EOF\<close> for the second entry, the error
  travels up unchanged, and the loop of \<^verbatim>\<open>File.Decode\<close> takes it for the end of the chunk
  sequence: the result is a \<^verbatim>\<open>File\<close> with no chunk. And a \<^verbatim>\<open>data\<close> chunk of declared
  size 10 followed by the edit count and 2 bytes decodes to a chunk with a 2-byte blob.
\<close>

theorem File_Decode_truncated_counterexample:
  "File_Decode 1024 File_zero
     ([99, 97, 102, 102, 0, 1, 0, 0]
      @ [112, 97, 107, 116, 0, 0, 0, 0, 0, 0, 0, 27]
      @ [0, 0, 0, 0, 0, 0, 0, 3, 0, 0, 0, 0, 0, 0, 0, 0, 0, 0, 0, 0, 0, 0, 0, 0] @ [5])
     = Inr \<lparr>FileHeader = \<lparr>FileType = (99, 97, 102, 102), FileVersion = 1, FileFlags = 0\<rparr>,
            Chunks = []\<rparr>
   \<and> File_Decode 1024 File_zero
     ([99, 97, 102, 102, 0, 1, 0, 0]
      @ [100, 97, 116, 97, 0, 0, 0, 0, 0, 0, 0, 10] @ [0, 0, 0, 1, 9, 8])
     = Inr \<lparr>FileHeader = \<lparr>FileType = (99, 97, 102, 102), FileVersion = 1, FileFlags = 0\<rparr>,
            Chunks = [\<lparr>Chunk.Header = \<lparr>ChunkType = ChunkTypeAudioData, ChunkSize = 10\<rparr>,
                       Contents = PData \<lparr>EditCount = 1, Data = [9, 8]\<rparr>\<rparr>]\<rparr>"
proof
  show "File_Decode 1024 File_zero
     ([99, 97, 102, 102, 0, 1, 0, 0]
      @ [112, 97, 107, 116, 0, 0, 0, 0, 0, 0, 0, 27]
      @ [0, 0, 0, 0, 0, 0, 0, 3, 0, 0, 0, 0, 0, 0, 0, 0, 0, 0, 0, 0, 0, 0, 0, 0] @ [5])
     = Inr \<lparr>FileHeader = \<lparr>FileType = (99, 97, 102, 102), FileVersion = 1, FileFlags = 0\<rparr>,
            Chunks = []\<rparr>"
    using File_Decode_reaches_end[OF caff_header_example decodes_chunks.none truncated_pakt_chunk,
        of 1024 File_zero]
    by (simp add: File_zero_def)
  have "decodes_chunks 1024 ([100, 97, 116, 97, 0, 0, 0, 0, 0, 0, 0, 10] @ [0, 0, 0, 1, 9, 8])
      [\<lparr>Chunk.Header = \<lparr>ChunkType = ChunkTypeAudioData, ChunkSize = 10\<rparr>,
                       Contents = PData \<lparr>EditCount = 1, Data = [9, 8]\<rparr>\<rparr>] []"
    by (intro decodes_chunks.more[OF short_data_chunk] decodes_chunks.none)
  from File_Decode_reaches_end[OF caff_header_example this Chunk_decode_empty, of File_zero]
  show "File_Decode 1024 File_zero
     ([99, 97, 102, 102, 0, 1, 0, 0]
      @ [100, 97, 116, 97, 0, 0, 0, 0, 0, 0, 0, 10] @ [0, 0, 0, 1, 9, 8])
     = Inr \<lparr>FileHeader = \<lparr>FileType = (99, 97, 102, 102), FileVersion = 1, FileFlags = 0\<rparr>,
            Chunks = [\<lparr>Chunk.Header = \<lparr>ChunkType = ChunkTypeAudioData, ChunkSize = 10\<rparr>,
                       Contents = PData \<lparr>EditCount = 1, Data = [9, 8]\<rparr>\<rparr>]\<rparr>"
    by (simp add: File_zero_def)
qed

lemma zzzz_chunk_example:
  "Chunk_decode 1024 ([122, 122, 122, 122, 0, 0, 0, 0, 0, 0, 0, 3] @ [7, 8, 9] @ rest)
     = Inr (\<lparr>Chunk.Header = \<lparr>ChunkType = (122, 122, 122, 122), ChunkSize = 3\<rparr>,
             Contents = PUnknownContents [7, 8, 9]\<rparr>, rest)"
  using Chunk_decode_unknown_run[of "[122, 122, 122, 122, 0, 0, 0, 0, 0, 0, 0, 3]" 1024 "[7, 8, 9]" rest]
  by (simp add: zzzz_header zzzz_unknown)

lemma cut_chan_example:
  "ends_inside_read 1024
     ([99, 104, 97, 110, 0, 0, 0, 0, 0, 0, 0, 52]
      @ [0, 0, 0, 0, 0, 0, 0, 0, 0, 0, 0, 2]
      @ [0, 0, 0, 1, 0, 0, 0, 0, 63, 128, 0, 0, 0, 0, 0, 0, 0, 0, 0, 0]
      @ [0, 0, 0, 2, 0, 0, 0])"
  by (simp add: ends_inside_read_def partial_read_def Let_def get_ChunkHeader_def seg_def
      get_FourByteString_def be_word_def be_nat_def ChunkType_values)

lemma cut_header_example: "ends_inside_read 1024 [100, 101, 115]"
  by (simp add: ends_inside_read_def partial_read_def)

text \<open>
  Two truncated streams. In the first an unrecognised chunk is followed by 3 bytes of the
  next chunk header. In the second a channel layout announces 2 descriptions and the
  stream ends 7 bytes into the second one.
\<close>

theorem File_Decode_truncated_witness:
  "File_Decode 1024 File_zero ([99, 97, 102, 102, 0, 1, 0, 0]
      @ [122, 122, 122, 122, 0, 0, 0, 0, 0, 0, 0, 3] @ [7, 8, 9] @ [100, 101, 115])
     = Inl ErrUnexpectedEOF
   \<and> File_Decode 1024 File_zero ([99, 97, 102, 102, 0, 1, 0, 0]
      @ [99, 104, 97, 110, 0, 0, 0, 0, 0, 0, 0, 52]
      @ [0, 0, 0, 0, 0, 0, 0, 0, 0, 0, 0, 2]
      @ [0, 0, 0, 1, 0, 0, 0, 0, 63, 128, 0, 0, 0, 0, 0, 0, 0, 0, 0, 0]
      @ [0, 0, 0, 2, 0, 0, 0])
     = Inl ErrUnexpectedEOF"
proof -
  have r: "decodes_chunks 1024
      ([122, 122, 122, 122, 0, 0, 0, 0, 0, 0, 0, 3] @ [7, 8, 9] @ [100, 101, 115])
        [\<lparr>Chunk.Header = \<lparr>ChunkType = (122, 122, 122, 122), ChunkSize = 3\<rparr>,
          Contents = PUnknownContents [7, 8, 9]\<rparr>] [100, 101, 115]"
    by (intro decodes_chunks.more[OF zzzz_chunk_example] decodes_chunks.none)
  have a: "File_Decode 1024 File_zero ([99, 97, 102, 102, 0, 1, 0, 0]
      @ [122, 122, 122, 122, 0, 0, 0, 0, 0, 0, 0, 3] @ [7, 8, 9] @ [100, 101, 115])
     = Inl ErrUnexpectedEOF"
    using caff_header_example r cut_header_example
    by (intro File_Decode_truncated[THEN iffD2] disjI2) blast
  have b: "File_Decode 1024 File_zero ([99, 97, 102, 102, 0, 1, 0, 0]
      @ [99, 104, 97, 110, 0, 0, 0, 0, 0, 0, 0, 52]
      @ [0, 0, 0, 0, 0, 0, 0, 0, 0, 0, 0, 2]
      @ [0, 0, 0, 1, 0, 0, 0, 0, 63, 128, 0, 0, 0, 0, 0, 0, 0, 0, 0, 0]
      @ [0, 0, 0, 2, 0, 0, 0])
     = Inl ErrUnexpectedEOF"
    using caff_header_example decodes_chunks.none cut_chan_example
    by (intro File_Decode_truncated[THEN iffD2] disjI2) blast
  from a b show ?thesis by blast
qed


text \<open>
  Claim C9 as stated fails: an unrecognised chunk with declared size \<open>-1\<close> makes
  \<^verbatim>\<open>make([]byte, c.Header.ChunkSize)\<close> panic.
\<close>

theorem File_Decode_panics_counterexample:
  "File_Decode 1024 File_zero
     ([99, 97, 102, 102, 0, 1, 0, 0]
      @ [122, 122, 122, 122, 255, 255, 255, 255, 255, 255, 255, 255] @ [1, 2, 3])
     = Inl PanicMakeslice \<and> is_panic PanicMakeslice"
proof -
  let ?ch = "[122, 122, 122, 122, 255, 255, 255, 255, 255, 255, 255, 255 :: byte]"
  have rd: "binary_Read 12 get_ChunkHeader (?ch @ [1, 2, 3])
      = Inr (\<lparr>ChunkType = (122, 122, 122, 122), ChunkSize = - 1\<rparr>, [1, 2, 3])"
    using binary_Read_append[of ?ch 12 get_ChunkHeader "[1, 2, 3]"]
    by (simp only: minus_one_header) simp
  have bad: "bad_blob_size 1024 \<lparr>ChunkType = (122, 122, 122, 122), ChunkSize = - 1\<rparr>"
    by (simp add: bad_blob_size_def zzzz_unknown)
  from File_Decode_reaches_error[OF caff_header_example decodes_chunks.none
      Chunk_decode_panic[OF rd bad], of File_zero]
  show ?thesis by (simp add: is_panic_def)
qed

theorem File_Decode_panics_only_on_blob_size_witness:
  "File_Decode 1024 File_zero
     ([99, 97, 102, 102, 0, 1, 0, 0] @ [109, 105, 100, 105, 0, 0, 1, 0, 0, 0, 0, 0] @ [1, 2, 3])
     = Inl PanicMakeslice"
proof -
  let ?ch = "[109, 105, 100, 105, 0, 0, 1, 0, 0, 0, 0, 0 :: byte]"
  have rd: "binary_Read 12 get_ChunkHeader (?ch @ [1, 2, 3])
      = Inr (\<lparr>ChunkType = ChunkTypeMidi, ChunkSize = 1099511627776\<rparr>, [1, 2, 3])"
    using binary_Read_append[of ?ch 12 get_ChunkHeader "[1, 2, 3]"]
    by (simp only: huge_midi_header) simp
  have bad: "bad_blob_size 1024 \<lparr>ChunkType = ChunkTypeMidi, ChunkSize = 1099511627776\<rparr>"
    by (simp add: bad_blob_size_def)
  have "\<exists>fh r0 cs t h r1.
      FileHeader_Decode ([99, 97, 102, 102, 0, 1, 0, 0] @ ?ch @ [1, 2, 3]) = Inr (fh, r0)
      \<and> decodes_chunks 1024 r0 cs t
      \<and> binary_Read 12 get_ChunkHeader t = Inr (h, r1) \<and> bad_blob_size 1024 h"
    using caff_header_example decodes_chunks.none rd bad by blast
  then show ?thesis
    by (rule File_Decode_panics_only_on_blob_size[THEN conjunct2, THEN iffD1])
qed

section \<open>Minimal encodings are what encodeInt writes\<close>














section \<open>Round trips of the payload codecs\<close>

















section \<open>Round trip of a chunk\<close>







lemma spec_payload_not_chan:
  assumes "ChunkType h \<noteq> ChunkTypeChannelLayout"
  shows "spec_payload q lim h p = spec_payload q' lim h p"
  unfolding spec_payload_def using assms by (simp only: if_False)

lemma spec_payload_chan_unconstrained:
  "ChunkType h = ChunkTypeChannelLayout \<Longrightarrow>
   spec_payload False lim h p =
     (\<exists>tag bitmap cnt descs. length tag = 4 \<and> length bitmap = 4 \<and> length cnt = 4
        \<and> length descs = unat (be_word cnt :: 32 word) \<and> (\<forall>d \<in> set descs. length d = 20)
        \<and> p = tag @ bitmap @ cnt @ concat descs)"
  by (simp add: spec_payload_def ChunkType_values)

lemma spec_payload_quiet_valid:
  assumes "spec_payload True lim h p"
  shows "spec_payload False lim h p"
proof (cases "ChunkType h = ChunkTypeChannelLayout")
  case True
  with assms show ?thesis
    unfolding spec_payload_chan_unconstrained[OF True]
    by (simp add: spec_payload_def ChunkType_values) blast
next
  case False
  with assms spec_payload_not_chan[OF False, of True lim p False] show ?thesis by simp
qed

lemma spec_chunks_quiet_valid: "spec_chunks True lim bs \<Longrightarrow> spec_chunks False lim bs"
  by (induction rule: spec_chunks.induct)
    (auto intro: spec_chunks.intros spec_payload_quiet_valid)

lemma quiet_caf_valid: "quiet_caf lim B \<Longrightarrow> valid_caf lim B"
  unfolding quiet_caf_def valid_caf_def caf_format_def
  by (blast intro: spec_chunks_quiet_valid)




section \<open>Round trip of a file\<close>






















text \<open>
  The minimal form of the integers matters. \<^verbatim>\<open>decodeInt\<close> also accepts a padded
  encoding such as \<^verbatim>\<open>80 01\<close> of the value 1, which is outside the format above and
  which \<^verbatim>\<open>encodeInt\<close> writes back as the single byte \<^verbatim>\<open>01\<close>.
\<close>

lemma padded_varint_not_preserved:
  "decodeInt [128, 1] = Inr (1, []) \<and> encodeInt 1 = [1] \<and> \<not> spec_varint [128, 1]"
proof -
  have "decodeInt [128, 1] = Inr (1, [])" by (simp add: decodeInt_def Let_def)
  moreover have "encodeInt 1 = [1]"
    by (simp add: encodeInt_def encodeInt_groups.simps[of 1 "[]"])
  moreover have "\<not> spec_varint [128, 1]" by (simp add: spec_varint_def)
  ultimately show ?thesis by blast
qed

end
